theory Spec2Isabelle
  imports Complex_Main "HOL-Library.Product_Lexorder"
begin

section \<open>Data model of the DVRP simulator (dvrpsim.py)\<close>

text \<open>
  Python floats are modelled as exact rationals: every clock value, distance and cost is a
  \<open>rat\<close>, so rounding is not part of the model; sums are taken in the order in which the
  code takes them, and no result below rests on rearranging a sum. Python dictionaries whose iteration
  order the code depends on (\<open>orders\<close>, \<open>vehicles\<close>) are association lists in insertion
  order; dictionaries that are only looked up are maps. A missing key raises
  \<open>KeyError\<close>, which is the only exception the modelled code can raise.
\<close>

datatype py_error = KeyError

record plant =
  plant_id :: int
  plant_name :: string
  docks :: int

text \<open>
  \<open>delivered_time\<close> is the attribute the simulator attaches with \<open>setattr\<close>;
  \<open>None\<close> stands for the attribute being absent (\<open>hasattr\<close> is false).
\<close>

record order =
  order_id :: int
  pickup :: int
  delivery :: int
  qty :: int
  arrival :: rat
  due :: rat
  picked :: bool
  delivered :: bool
  delivered_time :: "rat option"

text \<open>The stack is a Python list: its top is the last element.\<close>

record vehicle =
  vehicle_id :: int
  capacity :: int
  start_location :: int
  location :: int
  time :: rat
  load :: int
  stack :: "int list"
  route :: "(int \<times> rat) list"

record simulator =
  plants :: "int \<rightharpoonup> plant"
  orders :: "(int \<times> order) list"
  vehicles :: "(int \<times> vehicle) list"
  distances :: "int \<times> int \<rightharpoonup> rat"
  travel_times :: "int \<times> int \<rightharpoonup> rat"
  dock_service_time :: rat
  unit_handling_time :: rat
  lambda_cost :: rat
  dock_occupancy :: "int \<rightharpoonup> (int \<times> rat) list"

subsection \<open>Distance and travel-time lookup\<close>

definition travel_time :: "simulator \<Rightarrow> int \<Rightarrow> int \<Rightarrow> rat" where
  "travel_time s a b =
     (case travel_times s (a, b) of
        Some t \<Rightarrow> t
      | None \<Rightarrow>
          (case travel_times s (b, a) of
             Some t \<Rightarrow> t
           | None \<Rightarrow>
               (case distances s (a, b) of
                  Some d \<Rightarrow> d
                | None \<Rightarrow> (case distances s (b, a) of Some d \<Rightarrow> d | None \<Rightarrow> 1)) / 30))"

definition distance :: "simulator \<Rightarrow> int \<Rightarrow> int \<Rightarrow> rat" where
  "distance s a b =
     (case distances s (a, b) of
        Some d \<Rightarrow> d
      | None \<Rightarrow> (case distances s (b, a) of Some d \<Rightarrow> d | None \<Rightarrow> 0))"

subsection \<open>Dock occupancy\<close>

text \<open>
  \<open>_free_docks\<close> prunes the plant's reservation list in place and returns the number of
  free docks; the model returns the count together with the updated simulator.
\<close>

definition free_docks :: "simulator \<Rightarrow> int \<Rightarrow> rat \<Rightarrow> py_error + (int \<times> simulator)" where
  "free_docks s pid at_time =
     (case dock_occupancy s pid of
        None \<Rightarrow> Inl KeyError
      | Some occ0 \<Rightarrow>
          (let occ = filter (\<lambda>r. snd r > at_time) occ0;
               s' = s\<lparr>dock_occupancy := (dock_occupancy s)(pid \<mapsto> occ)\<rparr>
           in case plants s pid of
                None \<Rightarrow> Inl KeyError
              | Some p \<Rightarrow> Inr (max 0 (docks p - int (length occ)), s')))"

definition occupy_dock :: "simulator \<Rightarrow> int \<Rightarrow> int \<Rightarrow> rat \<Rightarrow> py_error + simulator" where
  "occupy_dock s pid vid until_time =
     (case dock_occupancy s pid of
        None \<Rightarrow> Inl KeyError
      | Some occ \<Rightarrow> Inr (s\<lparr>dock_occupancy := (dock_occupancy s)(pid \<mapsto> occ @ [(vid, until_time)])\<rparr>))"

subsection \<open>In-place updates of the entity dictionaries\<close>

text \<open>
  The simulator mutates order and vehicle objects that live in the dictionaries. An object
  reference is modelled by the dictionary key under which the object is stored; a
  mutation rewrites the value stored under that key and leaves the key order unchanged.
\<close>

definition set_order :: "simulator \<Rightarrow> int \<Rightarrow> order \<Rightarrow> simulator" where
  "set_order s k v = s\<lparr>orders := map (\<lambda>(k', v'). if k' = k then (k', v) else (k', v')) (orders s)\<rparr>"

definition set_vehicle :: "simulator \<Rightarrow> int \<Rightarrow> vehicle \<Rightarrow> simulator" where
  "set_vehicle s k v =
     s\<lparr>vehicles := map (\<lambda>(k', v'). if k' = k then (k', v) else (k', v')) (vehicles s)\<rparr>"

subsection \<open>One vehicle's turn in a dispatch pass\<close>

text \<open>
  The body of the \<open>for veh in vehs\<close> loop of \<open>simulate_with_tracking\<close>. Besides the new
  state the model returns which branch ran, so that properties of a run can name the
  action a vehicle took. Every branch except the skip sets \<open>progressed\<close>.
\<close>

datatype action =
    Skipped
  | WaitDelivery
  | Deliver int rat
  | WaitPickup int
  | Pickup int int rat
  | Reposition
  | Idle

type_synonym candidate = "(int \<times> order) \<times> rat \<times> rat"

definition service_time :: "simulator \<Rightarrow> order \<Rightarrow> rat" where
  "service_time s x = dock_service_time s + unit_handling_time s * of_int (qty x)"

text \<open>Lines 244--261: the top of the stack is delivered at the vehicle's location.\<close>

definition deliver_step ::
  "simulator \<Rightarrow> int \<Rightarrow> vehicle \<Rightarrow> int \<Rightarrow> order \<Rightarrow> py_error + (action \<times> simulator)" where
  "deliver_step s vk veh ok top_o =
     (let arrival_time = time veh in
      case free_docks s (location veh) arrival_time of
        Inl e \<Rightarrow> Inl e
      | Inr (free, s1) \<Rightarrow>
          if free \<le> 0 then Inr (WaitDelivery, set_vehicle s1 vk (veh\<lparr>time := time veh + 1\<rparr>))
          else
            (let service = service_time s top_o;
                 finish = arrival_time + service;
                 veh' = veh\<lparr>time := finish, load := load veh - qty top_o,
                            stack := butlast (stack veh),
                            route := route veh @ [(location veh, finish)]\<rparr>;
                 top' = top_o\<lparr>delivered := True, delivered_time := Some finish\<rparr>;
                 s2 = set_order (set_vehicle s1 vk veh') ok top'
             in case occupy_dock s2 (location veh) (vehicle_id veh) finish of
                  Inl e \<Rightarrow> Inl e
                | Inr s3 \<Rightarrow> Inr (Deliver ok finish, s3)))"

text \<open>Lines 273--276: the LIFO test of one scanned order against the top of the stack.\<close>

definition lifo_blocked :: "simulator \<Rightarrow> vehicle \<Rightarrow> order \<Rightarrow> py_error + bool" where
  "lifo_blocked s veh x =
     (if stack veh \<noteq> [] then
        (case map_of (orders s) (last (stack veh)) of
           None \<Rightarrow> Inl KeyError
         | Some top_o \<Rightarrow> Inr (due x < due top_o))
      else Inr False)"

text \<open>Lines 263--279: the scan that collects the feasible pickups, in dictionary order.\<close>

fun feasible_scan :: "simulator \<Rightarrow> vehicle \<Rightarrow> (int \<times> order) list \<Rightarrow> py_error + candidate list" where
  "feasible_scan s veh [] = Inr []"
| "feasible_scan s veh ((k, x) # rest) =
     (if picked x \<or> delivered x then feasible_scan s veh rest
      else
        (let earliest = (if arrival x > time veh then arrival x else time veh) in
         if load veh + qty x > capacity veh then feasible_scan s veh rest
         else
           (case lifo_blocked s veh x of
              Inl e \<Rightarrow> Inl e
            | Inr True \<Rightarrow> feasible_scan s veh rest
            | Inr False \<Rightarrow>
                (let tt = travel_time s (location veh) (pickup x);
                     arr = earliest + tt
                 in case feasible_scan s veh rest of
                      Inl e \<Rightarrow> Inl e
                    | Inr cs \<Rightarrow> Inr (((k, x), arr, tt) # cs)))))"

definition cand_key :: "candidate \<Rightarrow> rat \<times> rat" where
  "cand_key c = (due (snd (fst c)), fst (snd c))"

text \<open>Lines 281--300: the first candidate of the stably sorted list is driven to.\<close>

definition pickup_step ::
  "simulator \<Rightarrow> int \<Rightarrow> vehicle \<Rightarrow> candidate \<Rightarrow> py_error + (action \<times> simulator)" where
  "pickup_step s vk veh c =
     (case c of ((ok, x), arr, tt) \<Rightarrow>
        (let veh1 = veh\<lparr>time := arr, location := pickup x\<rparr> in
         case free_docks s (location veh1) (time veh1) of
           Inl e \<Rightarrow> Inl e
         | Inr (free, s1) \<Rightarrow>
             if free \<le> 0 then
               Inr (WaitPickup ok, set_vehicle s1 vk (veh1\<lparr>time := time veh1 + 1\<rparr>))
             else
               (let service = service_time s x;
                    finish = time veh1 + service;
                    veh' = veh1\<lparr>time := finish, load := load veh1 + qty x,
                                stack := stack veh1 @ [order_id x],
                                route := route veh1 @ [(location veh1, finish)]\<rparr>;
                    s2 = set_order (set_vehicle s1 vk veh') ok (x\<lparr>picked := True\<rparr>)
                in case occupy_dock s2 (location veh1) (vehicle_id veh1) finish of
                     Inl e \<Rightarrow> Inl e
                   | Inr s3 \<Rightarrow> Inr (Pickup ok (order_id x) finish, s3))))"

text \<open>Lines 301--312: reposition towards the top order's delivery plant, else idle.\<close>

definition move_or_idle :: "simulator \<Rightarrow> int \<Rightarrow> vehicle \<Rightarrow> py_error + (action \<times> simulator)" where
  "move_or_idle s vk veh =
     (let idle = Inr (Idle, set_vehicle s vk (veh\<lparr>time := time veh + 1\<rparr>)) in
      if stack veh \<noteq> [] then
        (case map_of (orders s) (last (stack veh)) of
           None \<Rightarrow> Inl KeyError
         | Some top_o \<Rightarrow>
             if location veh \<noteq> delivery top_o then
               (let tt = travel_time s (location veh) (delivery top_o) in
                Inr (Reposition,
                     set_vehicle s vk (veh\<lparr>time := time veh + tt, location := delivery top_o\<rparr>)))
             else idle)
      else idle)"

definition select_or_move :: "simulator \<Rightarrow> int \<Rightarrow> vehicle \<Rightarrow> py_error + (action \<times> simulator)" where
  "select_or_move s vk veh =
     (case feasible_scan s veh (orders s) of
        Inl e \<Rightarrow> Inl e
      | Inr feasible \<Rightarrow>
          if feasible \<noteq> [] then pickup_step s vk veh (hd (sort_key cand_key feasible))
          else move_or_idle s vk veh)"

definition veh_step :: "rat \<Rightarrow> simulator \<Rightarrow> int \<Rightarrow> vehicle \<Rightarrow> py_error + (action \<times> simulator)" where
  "veh_step until_time s vk veh =
     (if time veh > until_time then Inr (Skipped, s)
      else if stack veh \<noteq> [] then
        (case map_of (orders s) (last (stack veh)) of
           None \<Rightarrow> Inl KeyError
         | Some top_o \<Rightarrow>
             if location veh = delivery top_o then deliver_step s vk veh (last (stack veh)) top_o
             else select_or_move s vk veh)
      else select_or_move s vk veh)"

subsection \<open>Dispatch passes and the outer loop\<close>

text \<open>
  \<open>pass_loop\<close> is the \<open>for veh in vehs\<close> loop over the vehicle objects sorted by clock;
  a vehicle object is named by its key and read from the current state when its turn
  comes. The list of (vehicle key, action) pairs is the log of the branches that ran; the
  source keeps no such log, and nothing in the model reads it. The lookup of a vehicle
  key cannot fail in a pass (the keys come from the same dictionary).
\<close>

type_synonym trace = "(int \<times> action) list"

fun pass_loop ::
  "rat \<Rightarrow> int list \<Rightarrow> bool \<Rightarrow> trace \<Rightarrow> simulator \<Rightarrow> py_error + (bool \<times> trace \<times> simulator)" where
  "pass_loop u [] progressed tr s = Inr (progressed, tr, s)"
| "pass_loop u (vk # vks) progressed tr s =
     (case map_of (vehicles s) vk of
        None \<Rightarrow> Inl KeyError
      | Some veh \<Rightarrow>
          (case veh_step u s vk veh of
             Inl e \<Rightarrow> Inl e
           | Inr (a, s') \<Rightarrow>
               pass_loop u vks (if a = Skipped then progressed else True) (tr @ [(vk, a)]) s'))"

definition vehs :: "simulator \<Rightarrow> int list" where
  "vehs s = map fst (sort_key (\<lambda>kv. time (snd kv)) (vehicles s))"

definition undelivered :: "rat \<Rightarrow> simulator \<Rightarrow> (int \<times> order) list" where
  "undelivered u s = filter (\<lambda>kx. \<not> delivered (snd kx) \<and> arrival (snd kx) \<le> u) (orders s)"

function dispatch_loop ::
  "rat \<Rightarrow> nat \<Rightarrow> trace \<Rightarrow> simulator \<Rightarrow> py_error + (trace \<times> simulator)" where
  "dispatch_loop u iterations tr s =
     (if iterations < 20000 then
        (if undelivered u s = [] then Inr (tr, s)
         else
           (case pass_loop u (vehs s) False [] s of
              Inl e \<Rightarrow> Inl e
            | Inr (progressed, tr', s') \<Rightarrow>
                if \<not> progressed then Inr (tr @ tr', s')
                else dispatch_loop u (iterations + 1) (tr @ tr') s'))
      else Inr (tr, s))"
  by pat_completeness auto
termination
  by (relation "measure (\<lambda>(u, iterations, tr, s). 20000 - iterations)") auto

declare dispatch_loop.simps [simp del]

definition reset :: "simulator \<Rightarrow> simulator" where
  "reset s =
     s\<lparr>orders := map (\<lambda>(k, x). (k, x\<lparr>picked := False, delivered := False,
                                       delivered_time := None\<rparr>)) (orders s),
       vehicles := map (\<lambda>(k, v). (k, v\<lparr>location := start_location v, time := 0, load := 0,
                                         stack := [], route := []\<rparr>)) (vehicles s),
       dock_occupancy := (\<lambda>pid. case plants s pid of None \<Rightarrow> None | Some p \<Rightarrow> Some [])\<rparr>"

subsection \<open>Objective computation and the returned result\<close>

definition order_late :: "order \<Rightarrow> rat" where
  "order_late x =
     (case delivered_time x of None \<Rightarrow> due x * 10 | Some t \<Rightarrow> max 0 (t - due x))"

text \<open>
  The lateness terms are added one by one in the iteration order of the order dictionary,
  starting from 0, as the loop of the code does.
\<close>

fun total_late_loop :: "(int \<times> order) list \<Rightarrow> rat \<Rightarrow> rat" where
  "total_late_loop [] total_late = total_late"
| "total_late_loop ((k, x) # rest) total_late = total_late_loop rest (total_late + order_late x)"

fun route_dist_loop :: "simulator \<Rightarrow> (int \<times> rat) list \<Rightarrow> int \<Rightarrow> rat \<Rightarrow> rat" where
  "route_dist_loop s [] prev d = d"
| "route_dist_loop s ((loc, t) # rest) prev d =
     route_dist_loop s rest loc (d + distance s prev loc)"

fun total_distance_loop :: "simulator \<Rightarrow> (int \<times> vehicle) list \<Rightarrow> rat \<Rightarrow> rat" where
  "total_distance_loop s [] total_distance = total_distance"
| "total_distance_loop s ((k, v) # rest) total_distance =
     total_distance_loop s rest
       (total_distance + route_dist_loop s (route v) (start_location v) 0)"

record order_outcome =
  out_picked :: bool
  out_delivered :: bool
  out_delivered_time :: "rat option"

record vehicle_outcome =
  out_route :: "(int \<times> rat) list"
  final_time :: rat
  final_location :: int

record result =
  total_late :: rat
  avg_distance :: rat
  objective :: rat
  res_orders :: "(int \<times> order_outcome) list"
  res_vehicles :: "(int \<times> vehicle_outcome) list"

definition compute_result :: "simulator \<Rightarrow> result" where
  "compute_result s =
     (let total_late = total_late_loop (orders s) 0;
          total_distance = total_distance_loop s (vehicles s) 0;
          avg_distance = total_distance / of_nat (max 1 (length (vehicles s)));
          f_obj = lambda_cost s * total_late + avg_distance
      in \<lparr>total_late = total_late, avg_distance = avg_distance, objective = f_obj,
          res_orders = map (\<lambda>(oid, x). (oid, \<lparr>out_picked = picked x, out_delivered = delivered x,
                                               out_delivered_time = delivered_time x\<rparr>)) (orders s),
          res_vehicles = map (\<lambda>(vid, v). (vid, \<lparr>out_route = route v, final_time = time v,
                                                 final_location = location v\<rparr>)) (vehicles s)\<rparr>)"

text \<open>
  \<open>simulate_with_tracking\<close> mutates the simulator it is called on and returns the result
  dictionary; the model returns both, with the log of actions.
\<close>

definition simulate_run :: "rat \<Rightarrow> simulator \<Rightarrow> py_error + (trace \<times> simulator)" where
  "simulate_run until_time s = dispatch_loop until_time 0 [] (reset s)"

definition simulate_with_tracking :: "rat \<Rightarrow> simulator \<Rightarrow> py_error + (result \<times> simulator)" where
  "simulate_with_tracking until_time s =
     (case simulate_run until_time s of
        Inl e \<Rightarrow> Inl e
      | Inr (tr, s') \<Rightarrow> Inr (compute_result s', s'))"

subsection \<open>Reference notions used to state the properties\<close>

text \<open>
  The length of a path through a list of locations: the sum of the distances between
  consecutive locations.
\<close>

fun path_length :: "simulator \<Rightarrow> int list \<Rightarrow> rat" where
  "path_length s [] = 0"
| "path_length s [a] = 0"
| "path_length s (a # b # rest) = distance s a b + path_length s (b # rest)"

subsection \<open>Concrete scenarios\<close>

definition mk_order :: "int \<Rightarrow> int \<Rightarrow> int \<Rightarrow> int \<Rightarrow> rat \<Rightarrow> rat \<Rightarrow> order" where
  "mk_order i p d q a t =
     \<lparr>order_id = i, pickup = p, delivery = d, qty = q, arrival = a, due = t,
      picked = False, delivered = False, delivered_time = None\<rparr>"

definition mk_vehicle :: "int \<Rightarrow> int \<Rightarrow> int \<Rightarrow> vehicle" where
  "mk_vehicle i c l =
     \<lparr>vehicle_id = i, capacity = c, start_location = l, location = l, time = 0,
      load = 0, stack = [], route = []\<rparr>"

definition mk_plant :: "int \<Rightarrow> string \<Rightarrow> int \<Rightarrow> plant" where
  "mk_plant i n d = \<lparr>plant_id = i, plant_name = n, docks = d\<rparr>"

text \<open>The scenario at the bottom of dvrpsim.py.\<close>

definition ref_distances :: "int \<times> int \<rightharpoonup> rat" where
  "ref_distances =
     map_of [((0, 1), 10), ((0, 2), 20), ((0, 3), 25), ((1, 2), 12), ((1, 3), 15), ((2, 3), 8)]"

definition ref_sim :: simulator where
  "ref_sim =
     \<lparr>plants = map_of [(1, mk_plant 1 ''P1'' 2), (2, mk_plant 2 ''P2'' 1),
                       (3, mk_plant 3 ''P3'' 1), (0, mk_plant 0 ''Depot'' 2)],
      orders = [(1, mk_order 1 1 2 2 10 180), (2, mk_order 2 1 3 1 20 160),
                (3, mk_order 3 2 3 3 0 240), (4, mk_order 4 3 1 1 30 200)],
      vehicles = [(1, mk_vehicle 1 5 0), (2, mk_vehicle 2 4 0)],
      distances = ref_distances,
      travel_times = (\<lambda>k. map_option (\<lambda>v. v / 40 * 60) (ref_distances k)),
      dock_service_time = 5, unit_handling_time = 2, lambda_cost = 50,
      dock_occupancy = (\<lambda>pid. None)\<rparr>"

text \<open>A simulator whose tables cover only some plant pairs.\<close>

definition sparse_sim :: simulator where
  "sparse_sim =
     \<lparr>plants = map_of [(0, mk_plant 0 ''A'' 1), (1, mk_plant 1 ''B'' 1),
                       (2, mk_plant 2 ''C'' 1), (3, mk_plant 3 ''D'' 1)],
      orders = [], vehicles = [],
      distances = map_of [((0, 1), 10), ((1, 2), 12), ((0, 3), 60)],
      travel_times = map_of [((0, 1), 15)],
      dock_service_time = 5, unit_handling_time = 1, lambda_cost = 100,
      dock_occupancy = (\<lambda>pid. None)\<rparr>"

text \<open>One vehicle, one order, no dock contention.\<close>

definition tiny_sim :: simulator where
  "tiny_sim =
     \<lparr>plants = map_of [(0, mk_plant 0 ''A'' 1), (1, mk_plant 1 ''B'' 1), (2, mk_plant 2 ''C'' 1)],
      orders = [(1, mk_order 1 1 2 1 0 30)],
      vehicles = [(1, mk_vehicle 1 5 0)],
      distances = map_of [((0, 1), 10), ((1, 2), 12)],
      travel_times = map_of [((0, 1), 10), ((1, 2), 20)],
      dock_service_time = 5, unit_handling_time = 1, lambda_cost = 100,
      dock_occupancy = (\<lambda>pid. None)\<rparr>"

text \<open>
  \<open>scan_feasible\<close> is the test the scan of the code applies to an order: for the LIFO
  part it compares with the order stored under the key that equals the id on top of the
  stack. \<open>spec_feasible\<close> is feasibility in the words of the specification: the LIFO part
  compares with the order on top of the stack, that is, the loaded order whose id was
  pushed last. The two agree when every order is stored under its own id.
  \<open>projected_arrival\<close> is the projected pickup-arrival time in the words of the
  specification.
\<close>

definition scan_feasible :: "simulator \<Rightarrow> vehicle \<Rightarrow> order \<Rightarrow> bool" where
  "scan_feasible s veh x \<longleftrightarrow>
     \<not> picked x \<and> \<not> delivered x \<and> load veh + qty x \<le> capacity veh \<and>
     (stack veh \<noteq> [] \<longrightarrow>
        (\<exists>top_o. map_of (orders s) (last (stack veh)) = Some top_o \<and> due top_o \<le> due x))"

definition spec_feasible :: "simulator \<Rightarrow> vehicle \<Rightarrow> order \<Rightarrow> bool" where
  "spec_feasible s veh x \<longleftrightarrow>
     \<not> picked x \<and> \<not> delivered x \<and> load veh + qty x \<le> capacity veh \<and>
     (stack veh = [] \<or>
        (\<exists>ky \<in> set (orders s). order_id (snd ky) = last (stack veh) \<and>
           due (snd ky) \<le> due x))"

definition projected_arrival :: "simulator \<Rightarrow> vehicle \<Rightarrow> order \<Rightarrow> rat" where
  "projected_arrival s veh x =
     max (arrival x) (time veh) + travel_time s (location veh) (pickup x)"

text \<open>
  The state after the first \<open>n\<close> turns of one vehicle, and a scenario with three orders
  at one pickup plant, stored under their own ids.
\<close>

fun vehicle_turns :: "rat \<Rightarrow> int \<Rightarrow> nat \<Rightarrow> simulator \<Rightarrow> simulator option" where
  "vehicle_turns u vk 0 s = Some s"
| "vehicle_turns u vk (Suc n) s =
     (case map_of (vehicles s) vk of
        None \<Rightarrow> None
      | Some veh \<Rightarrow>
          (case veh_step u s vk veh of
             Inl e \<Rightarrow> None
           | Inr (a, s') \<Rightarrow> vehicle_turns u vk n s'))"

definition lifo_sim :: simulator where
  "lifo_sim =
     \<lparr>plants = map_of [(0, mk_plant 0 ''A'' 1), (1, mk_plant 1 ''B'' 1),
                       (2, mk_plant 2 ''C'' 1), (3, mk_plant 3 ''D'' 1)],
      orders = [(1, mk_order 1 1 2 1 0 100), (2, mk_order 2 1 3 1 0 200),
                (3, mk_order 3 1 2 1 0 150)],
      vehicles = [(1, mk_vehicle 1 5 0)],
      distances = map_of [((0, 1), 10), ((1, 2), 20), ((1, 3), 30), ((2, 3), 15)],
      travel_times = map_of [((0, 1), 10), ((1, 1), 0), ((1, 2), 20), ((1, 3), 30),
                             ((2, 3), 15)],
      dock_service_time = 5, unit_handling_time = 1, lambda_cost = 100,
      dock_occupancy = (\<lambda>pid. None)\<rparr>"


text \<open>The only order does not fit the only vehicle.\<close>

definition idle_sim :: simulator where
  "idle_sim =
     \<lparr>plants = map_of [(0, mk_plant 0 ''A'' 1), (1, mk_plant 1 ''B'' 1), (2, mk_plant 2 ''C'' 1)],
      orders = [(1, mk_order 1 1 2 2 0 30)],
      vehicles = [(1, mk_vehicle 1 1 0)],
      distances = map_of [((0, 1), 10), ((1, 2), 12)],
      travel_times = map_of [((0, 1), 10), ((1, 2), 20)],
      dock_service_time = 5, unit_handling_time = 1, lambda_cost = 100,
      dock_occupancy = (\<lambda>pid. None)\<rparr>"

text \<open>The state of \<open>idle_sim\<close> in which the vehicle has idled up to clock \<open>t\<close>.\<close>

definition idle_at :: "rat \<Rightarrow> simulator" where
  "idle_at t = set_vehicle (reset idle_sim) 1 ((mk_vehicle 1 1 0)\<lparr>time := t\<rparr>)"

subsection \<open>Predicates on simulator states\<close>

definition delivered_consistent :: "simulator \<Rightarrow> bool" where
  "delivered_consistent s \<longleftrightarrow>
     (\<forall>kx \<in> set (orders s). delivered (snd kx) \<longleftrightarrow> delivered_time (snd kx) \<noteq> None)"

subsection \<open>States of a run\<close>

text \<open>
  The states a run from \<open>s0\<close> to horizon \<open>u\<close> can pass through: the reset state, and
  every state after a vehicle's turn. The dock queries of a turn are made on such a state.
\<close>

inductive_set reachable :: "rat \<Rightarrow> simulator \<Rightarrow> simulator set" for u :: rat and s0 :: simulator where
  start: "reset s0 \<in> reachable u s0"
| turn: "s \<in> reachable u s0 \<Longrightarrow> map_of (vehicles s) vk = Some veh \<Longrightarrow>
         veh_step u s vk veh = Inr (a, s') \<Longrightarrow> s' \<in> reachable u s0"

definition dock_bound :: "simulator \<Rightarrow> bool" where
  "dock_bound s \<longleftrightarrow>
     (\<forall>q occ p. dock_occupancy s q = Some occ \<longrightarrow> plants s q = Some p \<longrightarrow>
        int (length occ) \<le> docks p)"

definition same_config :: "simulator \<Rightarrow> simulator \<Rightarrow> bool" where
  "same_config s s' \<longleftrightarrow>
     plants s' = plants s \<and> distances s' = distances s \<and> travel_times s' = travel_times s \<and>
     dock_service_time s' = dock_service_time s \<and> unit_handling_time s' = unit_handling_time s \<and>
     lambda_cost s' = lambda_cost s"

section \<open>The optimizer (dvrp_algorithm.py)\<close>

record optimizer =
  simulator_ref :: simulator
  max_time :: rat
  disturb_acceptance :: rat

type_synonym order_set = "(int \<times> order) list"

text \<open>
  \<open>evaluate\<close> deep-copies the orders and the reference simulator's vehicles, builds a new
  simulator on the shared plants and tables, and runs it to the default horizon of
  \<open>24 * 60\<close>. Copies of values are the values themselves; the new simulator's dock table
  is the one its constructor builds.
\<close>

definition new_simulator ::
  "(int \<rightharpoonup> plant) \<Rightarrow> order_set \<Rightarrow> (int \<times> vehicle) list \<Rightarrow> (int \<times> int \<rightharpoonup> rat) \<Rightarrow>
   (int \<times> int \<rightharpoonup> rat) \<Rightarrow> rat \<Rightarrow> rat \<Rightarrow> rat \<Rightarrow> simulator" where
  "new_simulator ps os vs ds tts dst uht lc =
     \<lparr>plants = ps, orders = os, vehicles = vs, distances = ds, travel_times = tts,
      dock_service_time = dst, unit_handling_time = uht, lambda_cost = lc,
      dock_occupancy = (\<lambda>pid. case ps pid of None \<Rightarrow> None | Some p \<Rightarrow> Some [])\<rparr>"

definition evaluate :: "optimizer \<Rightarrow> order_set \<Rightarrow> py_error + (rat \<times> result)" where
  "evaluate opt os =
     (let cloned_orders = os;
          cloned_vehicles = vehicles (simulator_ref opt);
          sim = new_simulator (plants (simulator_ref opt)) cloned_orders cloned_vehicles
                  (distances (simulator_ref opt)) (travel_times (simulator_ref opt))
                  (dock_service_time (simulator_ref opt)) (unit_handling_time (simulator_ref opt))
                  (lambda_cost (simulator_ref opt))
      in case simulate_with_tracking (24 * 60) sim of
           Inl e \<Rightarrow> Inl e
         | Inr (res, sim') \<Rightarrow> Inr (objective res, res))"

subsection \<open>Move operators\<close>

text \<open>
  \<open>random.sample(xs, 2)\<close> returns two elements at distinct positions of \<open>xs\<close>. The random
  source is a sequence of pairs of raw numbers; a draw is turned into two distinct
  positions below the length, and every pair of distinct positions arises from some draw.
\<close>

definition sample2 :: "nat \<Rightarrow> nat \<times> nat \<Rightarrow> nat \<times> nat" where
  "sample2 n xy =
     (let a = fst xy mod n; b = (a + 1 + snd xy mod (n - 1)) mod n in (a, b))"

definition couple_exchange :: "nat \<times> nat \<Rightarrow> order_set \<Rightarrow> order_set" where
  "couple_exchange xy os =
     (if length os < 2 then os
      else
        (let (a, b) = sample2 (length os) xy;
             o1 = snd (os ! a);
             o2 = snd (os ! b)
         in (os[a := (fst (os ! a), o1\<lparr>delivery := delivery o2\<rparr>)])
              [b := (fst (os ! b), o2\<lparr>delivery := delivery o1\<rparr>)]))"

definition block_exchange :: "nat \<times> nat \<Rightarrow> order_set \<Rightarrow> order_set" where
  "block_exchange xy os =
     (if length os \<ge> 2 then
        (let (a, b) = sample2 (length os) xy;
             i = fst (os ! a);
             j = fst (os ! b)
         in (os[a := (i, snd (os ! b))])[b := (j, snd (os ! a))])
      else os)"

text \<open>
  \<open>pop(i)\<close> removes the entry, and the assignment that follows inserts the key anew: in
  an insertion-ordered dictionary the entry moves to the end.
\<close>

definition block_relocate :: "nat \<times> nat \<Rightarrow> order_set \<Rightarrow> order_set" where
  "block_relocate xy os =
     (if length os \<ge> 2 then
        (let (a, b) = sample2 (length os) xy;
             i = fst (os ! a);
             x = snd (os ! a)
         in take a os @ drop (Suc a) os @ [(i, x)])
      else os)"

definition multi_relocate :: "nat \<times> nat \<Rightarrow> nat \<times> nat \<Rightarrow> order_set \<Rightarrow> order_set" where
  "multi_relocate xy xy' os = block_relocate xy' (block_relocate xy os)"

definition disturb :: "nat \<times> nat \<Rightarrow> order_set \<Rightarrow> order_set" where
  "disturb xy os =
     (if length os < 2 then os
      else
        (let (a, b) = sample2 (length os) xy;
             o1 = snd (os ! a);
             o2 = snd (os ! b)
         in (os[a := (fst (os ! a), o1\<lparr>delivery := delivery o2\<rparr>)])
              [b := (fst (os ! b), o2\<lparr>delivery := delivery o1\<rparr>)]))"

subsection \<open>Main loop\<close>

text \<open>
  The state of \<open>optimize\<close>: its local variables, and the number of draws taken from the
  random source \<open>rnd\<close> so far. A draw is taken only when \<open>random.sample\<close> is called, that
  is, when the order set has at least two orders.
\<close>

record opt_state =
  best_cost :: rat
  best_res :: result
  best_orders :: order_set
  initial_cost :: rat
  initial_res :: result
  initial_orders :: order_set
  draws :: nat

datatype move = CoupleExchange | BlockExchange | BlockRelocate | MultiRelocate

definition used_draws :: "order_set \<Rightarrow> nat \<Rightarrow> nat \<Rightarrow> nat" where
  "used_draws os k c = (if length os < 2 then c else c + k)"

fun apply_move :: "(nat \<Rightarrow> nat \<times> nat) \<Rightarrow> move \<Rightarrow> order_set \<Rightarrow> nat \<Rightarrow> order_set \<times> nat" where
  "apply_move rnd CoupleExchange os c = (couple_exchange (rnd c) os, used_draws os 1 c)"
| "apply_move rnd BlockExchange os c = (block_exchange (rnd c) os, used_draws os 1 c)"
| "apply_move rnd BlockRelocate os c = (block_relocate (rnd c) os, used_draws os 1 c)"
| "apply_move rnd MultiRelocate os c =
     (multi_relocate (rnd c) (rnd (c + 1)) os, used_draws os 2 c)"

text \<open>The \<open>for move in [...]\<close> loop: the first improving candidate is taken.\<close>

fun local_search ::
  "optimizer \<Rightarrow> (nat \<Rightarrow> nat \<times> nat) \<Rightarrow> move list \<Rightarrow> opt_state \<Rightarrow> py_error + (bool \<times> opt_state)" where
  "local_search opt rnd [] st = Inr (False, st)"
| "local_search opt rnd (m # ms) st =
     (case apply_move rnd m (initial_orders st) (draws st) of
        (cand_orders, c) \<Rightarrow>
          (case evaluate opt cand_orders of
             Inl e \<Rightarrow> Inl e
           | Inr (cand_cost, cand_res) \<Rightarrow>
               if cand_cost < best_cost st then
                 Inr (True, st\<lparr>best_cost := cand_cost, best_res := cand_res,
                               best_orders := cand_orders, draws := c\<rparr>)
               else local_search opt rnd ms (st\<lparr>draws := c\<rparr>)))"

text \<open>
  One round of the \<open>while\<close> loop; the returned flag tells whether the loop goes on
  (\<open>False\<close> is the \<open>break\<close> after a rejected disturbance).
\<close>

definition opt_round ::
  "optimizer \<Rightarrow> (nat \<Rightarrow> nat \<times> nat) \<Rightarrow> opt_state \<Rightarrow> py_error + (bool \<times> opt_state)" where
  "opt_round opt rnd st =
     (case local_search opt rnd [CoupleExchange, BlockExchange, BlockRelocate, MultiRelocate] st of
        Inl e \<Rightarrow> Inl e
      | Inr (improved, st1) \<Rightarrow>
          if \<not> improved then
            (let cand_orders = disturb (rnd (draws st1)) (best_orders st1);
                 c = used_draws (best_orders st1) 1 (draws st1)
             in case evaluate opt cand_orders of
                  Inl e \<Rightarrow> Inl e
                | Inr (cand_cost, cand_res) \<Rightarrow>
                    if cand_cost < initial_cost st1 * disturb_acceptance opt then
                      Inr (True, st1\<lparr>initial_cost := cand_cost, initial_res := cand_res,
                                     initial_orders := cand_orders, draws := c\<rparr>)
                    else Inr (False, st1\<lparr>draws := c\<rparr>))
          else Inr (True, st1))"

text \<open>
  The wall clock is the list of the values that successive calls of \<open>time.time()\<close>
  return: the first is \<open>start\<close>, each loop test reads the next. The result is \<open>None\<close>
  when the list ends before the loop does.
\<close>

fun optimize_loop ::
  "optimizer \<Rightarrow> (nat \<Rightarrow> nat \<times> nat) \<Rightarrow> rat \<Rightarrow> rat list \<Rightarrow> opt_state \<Rightarrow> (py_error + opt_state) option" where
  "optimize_loop opt rnd start [] st = None"
| "optimize_loop opt rnd start (now # clock) st =
     (if now - start < max_time opt then
        (case opt_round opt rnd st of
           Inl e \<Rightarrow> Some (Inl e)
         | Inr (continue, st') \<Rightarrow>
             if continue then optimize_loop opt rnd start clock st' else Some (Inr st'))
      else Some (Inr st))"

definition optimize ::
  "optimizer \<Rightarrow> (nat \<Rightarrow> nat \<times> nat) \<Rightarrow> rat list \<Rightarrow> order_set \<Rightarrow> (py_error + (rat \<times> result)) option" where
  "optimize opt rnd clock os =
     (case clock of
        [] \<Rightarrow> None
      | start # clock' \<Rightarrow>
          (case evaluate opt os of
             Inl e \<Rightarrow> Some (Inl e)
           | Inr (cost, res) \<Rightarrow>
               (case optimize_loop opt rnd start clock'
                       \<lparr>best_cost = cost, best_res = res, best_orders = os,
                        initial_cost = cost, initial_res = res, initial_orders = os,
                        draws = 0\<rparr> of
                  None \<Rightarrow> None
                | Some (Inl e) \<Rightarrow> Some (Inl e)
                | Some (Inr st) \<Rightarrow> Some (Inr (best_cost st, best_res st)))))"

subsection \<open>A concrete optimizer\<close>

definition tiny_opt :: optimizer where
  "tiny_opt = \<lparr>simulator_ref = tiny_sim, max_time = 600, disturb_acceptance = 6\<rparr>"

definition tiny_state :: "rat \<Rightarrow> opt_state" where
  "tiny_state c =
     \<lparr>best_cost = c, best_res = compute_result tiny_sim, best_orders = orders tiny_sim,
      initial_cost = c, initial_res = compute_result tiny_sim, initial_orders = orders tiny_sim,
      draws = 0\<rparr>"

subsection \<open>Causality of deliveries\<close>




definition statics :: "order \<Rightarrow> order" where
  "statics x = x\<lparr>picked := False, delivered := False, delivered_time := None\<rparr>"

definition order_data :: "simulator \<Rightarrow> (int \<times> order) list" where
  "order_data s = map (\<lambda>kx. (fst kx, statics (snd kx))) (orders s)"







subsection \<open>Order dictionaries that differ in iteration order only\<close>

text \<open>
  \<open>reordered s t\<close>: the two simulators agree on everything except the order in which
  their order dictionaries are iterated, and no two orders have the same due time.
  \<open>same_outcome\<close>: two result dictionaries report the same run: the same per-order
  outcomes (as a mapping from ids), the same vehicle outcomes and the same average
  distance. Total lateness and the objective are left out: they are sums over the order
  dictionary in its iteration order, and the code adds floats, whose sum depends on the
  order of addition.
\<close>

definition reordered :: "simulator \<Rightarrow> simulator \<Rightarrow> bool" where
  "reordered s t \<longleftrightarrow>
     set (orders t) = set (orders s) \<and> distinct (map fst (orders s)) \<and>
     distinct (map fst (orders t)) \<and> distinct (map (\<lambda>kx. due (snd kx)) (orders s)) \<and>
     vehicles t = vehicles s \<and> dock_occupancy t = dock_occupancy s \<and> same_config s t"

definition same_outcome :: "result \<Rightarrow> result \<Rightarrow> bool" where
  "same_outcome r r' \<longleftrightarrow>
     avg_distance r' = avg_distance r \<and> map_of (res_orders r') = map_of (res_orders r) \<and>
     res_vehicles r' = res_vehicles r"

text \<open>Two orders that are picked up together, and two orders with the same due time.\<close>

definition swap_sim :: simulator where
  "swap_sim =
     \<lparr>plants = map_of [(0, mk_plant 0 ''A'' 1), (1, mk_plant 1 ''B'' 1),
                       (2, mk_plant 2 ''C'' 1), (3, mk_plant 3 ''D'' 1)],
      orders = [(1, mk_order 1 1 2 1 0 100), (2, mk_order 2 1 3 1 0 200)],
      vehicles = [(1, mk_vehicle 1 5 0)],
      distances = map_of [((0, 1), 10), ((1, 2), 20), ((1, 3), 30), ((2, 3), 15)],
      travel_times = map_of [((0, 1), 10), ((1, 2), 20), ((1, 3), 30), ((2, 3), 15)],
      dock_service_time = 5, unit_handling_time = 1, lambda_cost = 100,
      dock_occupancy = (\<lambda>pid. None)\<rparr>"

definition tie_sim :: simulator where
  "tie_sim =
     \<lparr>plants = map_of [(0, mk_plant 0 ''A'' 1), (1, mk_plant 1 ''B'' 1),
                       (2, mk_plant 2 ''C'' 1), (3, mk_plant 3 ''D'' 1)],
      orders = [(1, mk_order 1 1 2 1 0 100), (2, mk_order 2 1 3 1 0 100)],
      vehicles = [(1, mk_vehicle 1 1 0)],
      distances = map_of [((0, 1), 10), ((1, 2), 20), ((1, 3), 30), ((2, 3), 15)],
      travel_times = map_of [((0, 1), 10), ((1, 2), 20), ((1, 3), 30), ((2, 3), 15)],
      dock_service_time = 5, unit_handling_time = 1, lambda_cost = 100,
      dock_occupancy = (\<lambda>pid. None)\<rparr>"

definition opt_of :: "simulator \<Rightarrow> optimizer" where
  "opt_of s = \<lparr>simulator_ref = s, max_time = 5, disturb_acceptance = 6\<rparr>"

section \<open>Objects and references\<close>

text \<open>
  To state what \<open>evaluate\<close> may mutate, the order and vehicle objects and the dock tables
  are placed in a store, and the dictionaries of a simulator hold addresses. Allocation
  takes the next unused address. Plants and the distance and travel-time tables are never
  written by any modelled code, so a simulator holds them as values.
\<close>

record heap =
  order_objs :: "nat \<Rightarrow> order"
  vehicle_objs :: "nat \<Rightarrow> vehicle"
  dock_objs :: "nat \<Rightarrow> (int \<rightharpoonup> (int \<times> rat) list)"
  next_addr :: nat

record sim_handle =
  h_plants :: "int \<rightharpoonup> plant"
  h_orders :: "(int \<times> nat) list"
  h_vehicles :: "(int \<times> nat) list"
  h_distances :: "int \<times> int \<rightharpoonup> rat"
  h_travel_times :: "int \<times> int \<rightharpoonup> rat"
  h_dock_service_time :: rat
  h_unit_handling_time :: rat
  h_lambda_cost :: rat
  h_docks :: nat

definition snapshot :: "(nat \<Rightarrow> 'a) \<Rightarrow> (int \<times> nat) list \<Rightarrow> (int \<times> 'a) list" where
  "snapshot objs refs = map (\<lambda>ka. (fst ka, objs (snd ka))) refs"

definition load_sim :: "heap \<Rightarrow> sim_handle \<Rightarrow> simulator" where
  "load_sim h sim =
     \<lparr>plants = h_plants sim, orders = snapshot (order_objs h) (h_orders sim),
      vehicles = snapshot (vehicle_objs h) (h_vehicles sim),
      distances = h_distances sim, travel_times = h_travel_times sim,
      dock_service_time = h_dock_service_time sim,
      unit_handling_time = h_unit_handling_time sim, lambda_cost = h_lambda_cost sim,
      dock_occupancy = dock_objs h (h_docks sim)\<rparr>"

fun write_back :: "(nat \<Rightarrow> 'a) \<Rightarrow> (int \<times> nat) list \<Rightarrow> (int \<times> 'a) list \<Rightarrow> (nat \<Rightarrow> 'a)" where
  "write_back objs ((k, a) # refs) ((k', v) # vals) = write_back (objs(a := v)) refs vals"
| "write_back objs refs vals = objs"

definition store_sim :: "heap \<Rightarrow> sim_handle \<Rightarrow> simulator \<Rightarrow> heap" where
  "store_sim h sim s =
     h\<lparr>order_objs := write_back (order_objs h) (h_orders sim) (orders s),
       vehicle_objs := write_back (vehicle_objs h) (h_vehicles sim) (vehicles s),
       dock_objs := (dock_objs h)(h_docks sim := dock_occupancy s)\<rparr>"

text \<open>
  \<open>simulate_with_tracking\<close> on a simulator object: its in-place mutations are the
  state-passing run on the values of the objects the simulator holds, written back to the
  same addresses. This is exact when those addresses are pairwise distinct, as they are
  for the freshly copied objects \<open>evaluate\<close> passes.
\<close>

definition simulate_h :: "rat \<Rightarrow> heap \<Rightarrow> sim_handle \<Rightarrow> py_error + (result \<times> heap)" where
  "simulate_h until_time h sim =
     (case simulate_with_tracking until_time (load_sim h sim) of
        Inl e \<Rightarrow> Inl e
      | Inr (res, s') \<Rightarrow> Inr (res, store_sim h sim s'))"

text \<open>\<open>copy.deepcopy\<close> of every value of a dictionary, into newly allocated objects.\<close>

fun clone_orders :: "heap \<Rightarrow> (int \<times> nat) list \<Rightarrow> (int \<times> nat) list \<times> heap" where
  "clone_orders h [] = ([], h)"
| "clone_orders h ((k, a) # refs) =
     (let a' = next_addr h;
          h1 = h\<lparr>order_objs := (order_objs h)(a' := order_objs h a), next_addr := a' + 1\<rparr>
      in case clone_orders h1 refs of (cloned, h2) \<Rightarrow> ((k, a') # cloned, h2))"

fun clone_vehicles :: "heap \<Rightarrow> (int \<times> nat) list \<Rightarrow> (int \<times> nat) list \<times> heap" where
  "clone_vehicles h [] = ([], h)"
| "clone_vehicles h ((k, a) # refs) =
     (let a' = next_addr h;
          h1 = h\<lparr>vehicle_objs := (vehicle_objs h)(a' := vehicle_objs h a), next_addr := a' + 1\<rparr>
      in case clone_vehicles h1 refs of (cloned, h2) \<Rightarrow> ((k, a') # cloned, h2))"

text \<open>The constructor of \<open>DVRPSimulator\<close>: a new object with its own dock table.\<close>

definition new_sim_handle ::
  "heap \<Rightarrow> sim_handle \<Rightarrow> (int \<times> nat) list \<Rightarrow> (int \<times> nat) list \<Rightarrow> sim_handle \<times> heap" where
  "new_sim_handle h ref os vs =
     (let d = next_addr h in
      (ref\<lparr>h_orders := os, h_vehicles := vs, h_docks := d\<rparr>,
       h\<lparr>dock_objs := (dock_objs h)(d := (\<lambda>pid. case h_plants ref pid of
                                                   None \<Rightarrow> None | Some p \<Rightarrow> Some [])),
         next_addr := d + 1\<rparr>))"

definition evaluate_h ::
  "heap \<Rightarrow> sim_handle \<Rightarrow> (int \<times> nat) list \<Rightarrow> py_error + ((rat \<times> result) \<times> heap)" where
  "evaluate_h h ref os =
     (case clone_orders h os of
        (cloned_orders, h1) \<Rightarrow>
          (case clone_vehicles h1 (h_vehicles ref) of
             (cloned_vehicles, h2) \<Rightarrow>
               (case new_sim_handle h2 ref cloned_orders cloned_vehicles of
                  (sim, h3) \<Rightarrow>
                    (case simulate_h (24 * 60) h3 sim of
                       Inl e \<Rightarrow> Inl e
                     | Inr (res, h4) \<Rightarrow> Inr ((objective res, res), h4)))))"

text \<open>
  The optimizer that holds the reference simulator \<open>ref\<close>, with the values its objects have
  in store \<open>h\<close>; and the objects that exist in \<open>h\<close> are the same in \<open>h'\<close>.
\<close>

definition optimizer_of :: "heap \<Rightarrow> sim_handle \<Rightarrow> optimizer" where
  "optimizer_of h ref = \<lparr>simulator_ref = load_sim h ref, max_time = 600, disturb_acceptance = 6\<rparr>"

definition unchanged :: "heap \<Rightarrow> heap \<Rightarrow> bool" where
  "unchanged h h' \<longleftrightarrow>
     next_addr h \<le> next_addr h' \<and>
     (\<forall>a < next_addr h. order_objs h' a = order_objs h a \<and>
        vehicle_objs h' a = vehicle_objs h a \<and> dock_objs h' a = dock_objs h a)"

definition allocated :: "heap \<Rightarrow> (int \<times> nat) list \<Rightarrow> bool" where
  "allocated h refs \<longleftrightarrow> (\<forall>ka \<in> set refs. snd ka < next_addr h)"

text \<open>A store holding the order and the vehicle of \<open>tiny_sim\<close>, and its simulator object.\<close>

definition tiny_heap :: heap where
  "tiny_heap =
     \<lparr>order_objs = (\<lambda>a. mk_order 0 0 0 0 0 0)(0 := mk_order 1 1 2 1 0 30),
      vehicle_objs = (\<lambda>a. mk_vehicle 0 0 0)(1 := mk_vehicle 1 5 0),
      dock_objs = (\<lambda>a pid. None),
      next_addr = 3\<rparr>"

definition tiny_ref :: sim_handle where
  "tiny_ref =
     \<lparr>h_plants = plants tiny_sim, h_orders = [(1, 0)], h_vehicles = [(1, 1)],
      h_distances = distances tiny_sim, h_travel_times = travel_times tiny_sim,
      h_dock_service_time = 5, h_unit_handling_time = 1, h_lambda_cost = 100,
      h_docks = 2\<rparr>"

section \<open>Properties\<close>

subsection \<open>Travel-time lookup\<close>

text \<open>
  Claim C2, as the code has it: the travel-time lookup returns the stored travel time of
  the pair, trying the orientation (a, b) before (b, a); when neither is stored it returns
  the stored distance (again (a, b) before (b, a)) divided by 30; and when the pair is in
  neither table it returns 1/30, the missing distance being taken as 1. The lookup is a
  total function: no case raises.
\<close>

theorem travel_time_lookup:
  "(travel_times s (a, b) = Some t \<longrightarrow> travel_time s a b = t) \<and>
   (travel_times s (a, b) = None \<and> travel_times s (b, a) = Some t \<longrightarrow> travel_time s a b = t) \<and>
   (travel_times s (a, b) = None \<and> travel_times s (b, a) = None \<and> distances s (a, b) = Some d
      \<longrightarrow> travel_time s a b = d / 30) \<and>
   (travel_times s (a, b) = None \<and> travel_times s (b, a) = None \<and> distances s (a, b) = None \<and>
    distances s (b, a) = Some d \<longrightarrow> travel_time s a b = d / 30) \<and>
   (travel_times s (a, b) = None \<and> travel_times s (b, a) = None \<and> distances s (a, b) = None \<and>
    distances s (b, a) = None \<longrightarrow> travel_time s a b = 1 / 30)"
  by (simp add: travel_time_def)

theorem travel_time_lookup_witness:
  "travel_time sparse_sim 0 1 = 15 \<and> travel_time sparse_sim 1 0 = 15 \<and>
   travel_time sparse_sim 1 2 = 2 / 5 \<and> travel_time sparse_sim 2 1 = 2 / 5 \<and>
   travel_time sparse_sim 2 3 = 1 / 30"
  using travel_time_lookup [of sparse_sim 0 1 15 0]
    travel_time_lookup [of sparse_sim 1 0 15 0]
    travel_time_lookup [of sparse_sim 1 2 0 12]
    travel_time_lookup [of sparse_sim 2 1 0 12]
    travel_time_lookup [of sparse_sim 2 3 0 0]
  by (simp add: sparse_sim_def)

text \<open>
  The claim as stated fails: for a pair in neither table the lookup returns 1/30, not zero.
\<close>

theorem travel_time_missing_pair_counterexample:
  "travel_times sparse_sim (2, 3) = None \<and> travel_times sparse_sim (3, 2) = None \<and>
   distances sparse_sim (2, 3) = None \<and> distances sparse_sim (3, 2) = None \<and>
   travel_time sparse_sim 2 3 \<noteq> 0"
  by (simp add: sparse_sim_def travel_time_def)

subsection \<open>Facts about the steps\<close>

lemma set_order_fields [simp]:
  "vehicles (set_order s k v) = vehicles s"
  "plants (set_order s k v) = plants s"
  "distances (set_order s k v) = distances s"
  "travel_times (set_order s k v) = travel_times s"
  "dock_service_time (set_order s k v) = dock_service_time s"
  "unit_handling_time (set_order s k v) = unit_handling_time s"
  "lambda_cost (set_order s k v) = lambda_cost s"
  "dock_occupancy (set_order s k v) = dock_occupancy s"
  "orders (set_order s k v) = map (\<lambda>(k', v'). if k' = k then (k', v) else (k', v')) (orders s)"
  by (simp_all add: set_order_def)

lemma set_vehicle_fields [simp]:
  "orders (set_vehicle s k v) = orders s"
  "plants (set_vehicle s k v) = plants s"
  "distances (set_vehicle s k v) = distances s"
  "travel_times (set_vehicle s k v) = travel_times s"
  "dock_service_time (set_vehicle s k v) = dock_service_time s"
  "unit_handling_time (set_vehicle s k v) = unit_handling_time s"
  "lambda_cost (set_vehicle s k v) = lambda_cost s"
  "dock_occupancy (set_vehicle s k v) = dock_occupancy s"
  "vehicles (set_vehicle s k v) = map (\<lambda>(k', v'). if k' = k then (k', v) else (k', v')) (vehicles s)"
  by (simp_all add: set_vehicle_def)

lemma free_docksE [consumes 1, case_names query]:
  assumes "free_docks s pid t = Inr (n, s')"
  obtains occ p where "dock_occupancy s pid = Some occ" "plants s pid = Some p"
    "n = max 0 (docks p - int (length (filter (\<lambda>r. snd r > t) occ)))"
    "s' = s\<lparr>dock_occupancy := (dock_occupancy s)(pid \<mapsto> filter (\<lambda>r. snd r > t) occ)\<rparr>"
  using assms by (auto simp: free_docks_def Let_def split: option.splits)

lemma occupy_dockE [consumes 1, case_names reserve]:
  assumes "occupy_dock s pid vid t = Inr s'"
  obtains occ where "dock_occupancy s pid = Some occ"
    "s' = s\<lparr>dock_occupancy := (dock_occupancy s)(pid \<mapsto> occ @ [(vid, t)])\<rparr>"
  using assms by (auto simp: occupy_dock_def split: option.splits)

lemma deliver_stepE [consumes 1, case_names wait deliver]:
  assumes "deliver_step s vk veh ok top_o = Inr (a, s')"
  obtains
    (wait) occ p where "dock_occupancy s (location veh) = Some occ"
      "plants s (location veh) = Some p"
      "docks p \<le> int (length (filter (\<lambda>r. snd r > time veh) occ))"
      "a = WaitDelivery"
      "s' = set_vehicle (s\<lparr>dock_occupancy := (dock_occupancy s)(location veh \<mapsto>
               filter (\<lambda>r. snd r > time veh) occ)\<rparr>) vk (veh\<lparr>time := time veh + 1\<rparr>)"
  | (deliver) occ p where "dock_occupancy s (location veh) = Some occ"
      "plants s (location veh) = Some p"
      "int (length (filter (\<lambda>r. snd r > time veh) occ)) < docks p"
      "a = Deliver ok (time veh + service_time s top_o)"
      "s' = (set_order (set_vehicle s vk
                (veh\<lparr>time := time veh + service_time s top_o, load := load veh - qty top_o,
                     stack := butlast (stack veh),
                     route := route veh @ [(location veh, time veh + service_time s top_o)]\<rparr>))
              ok (top_o\<lparr>delivered := True, delivered_time := Some (time veh + service_time s top_o)\<rparr>))
            \<lparr>dock_occupancy := (dock_occupancy s)(location veh \<mapsto>
               filter (\<lambda>r. snd r > time veh) occ @ [(vehicle_id veh, time veh + service_time s top_o)])\<rparr>"
proof -
  from assms obtain n s1 where fd: "free_docks s (location veh) (time veh) = Inr (n, s1)"
    by (auto simp: deliver_step_def Let_def split: sum.splits)
  from fd obtain occ p where q: "dock_occupancy s (location veh) = Some occ"
    "plants s (location veh) = Some p"
    "n = max 0 (docks p - int (length (filter (\<lambda>r. snd r > time veh) occ)))"
    "s1 = s\<lparr>dock_occupancy := (dock_occupancy s)(location veh \<mapsto> filter (\<lambda>r. snd r > time veh) occ)\<rparr>"
    by (rule free_docksE)
  show thesis
  proof (cases "n \<le> 0")
    case True
    with assms fd q show thesis
      by (intro wait[of occ p]) (auto simp: deliver_step_def Let_def)
  next
    case False
    with assms fd q show thesis
      by (intro deliver[of occ p])
         (auto simp: deliver_step_def Let_def occupy_dock_def set_order_def set_vehicle_def
               split: sum.splits option.splits)
  qed
qed

lemma pickup_stepE [consumes 1, case_names wait pickup]:
  assumes "pickup_step s vk veh ((ok, x), arr, tt) = Inr (a, s')"
  obtains
    (wait) occ p where "dock_occupancy s (pickup x) = Some occ"
      "plants s (pickup x) = Some p"
      "docks p \<le> int (length (filter (\<lambda>r. snd r > arr) occ))"
      "a = WaitPickup ok"
      "s' = set_vehicle (s\<lparr>dock_occupancy := (dock_occupancy s)(pickup x \<mapsto>
               filter (\<lambda>r. snd r > arr) occ)\<rparr>) vk (veh\<lparr>location := pickup x, time := arr + 1\<rparr>)"
  | (pickup) occ p where "dock_occupancy s (pickup x) = Some occ"
      "plants s (pickup x) = Some p"
      "int (length (filter (\<lambda>r. snd r > arr) occ)) < docks p"
      "a = Pickup ok (order_id x) (arr + service_time s x)"
      "s' = (set_order (set_vehicle s vk
                (veh\<lparr>location := pickup x, time := arr + service_time s x,
                     load := load veh + qty x,
                     stack := stack veh @ [order_id x],
                     route := route veh @ [(pickup x, arr + service_time s x)]\<rparr>))
              ok (x\<lparr>picked := True\<rparr>))
            \<lparr>dock_occupancy := (dock_occupancy s)(pickup x \<mapsto>
               filter (\<lambda>r. snd r > arr) occ @ [(vehicle_id veh, arr + service_time s x)])\<rparr>"
proof -
  from assms obtain n s1 where fd: "free_docks s (pickup x) arr = Inr (n, s1)"
    by (auto simp: pickup_step_def Let_def split: sum.splits)
  from fd obtain occ p where q: "dock_occupancy s (pickup x) = Some occ"
    "plants s (pickup x) = Some p"
    "n = max 0 (docks p - int (length (filter (\<lambda>r. snd r > arr) occ)))"
    "s1 = s\<lparr>dock_occupancy := (dock_occupancy s)(pickup x \<mapsto> filter (\<lambda>r. snd r > arr) occ)\<rparr>"
    by (rule free_docksE)
  show thesis
  proof (cases "n \<le> 0")
    case True
    with assms fd q show thesis
      by (intro wait[of occ p]) (auto simp: pickup_step_def Let_def)
  next
    case False
    with assms fd q show thesis
      by (intro pickup[of occ p])
         (auto simp: pickup_step_def Let_def occupy_dock_def set_order_def set_vehicle_def
               split: sum.splits option.splits)
  qed
qed

lemma move_or_idleE [consumes 1, case_names move idle]:
  assumes "move_or_idle s vk veh = Inr (a, s')"
  obtains
    (move) top_o where "stack veh \<noteq> []" "map_of (orders s) (last (stack veh)) = Some top_o"
      "location veh \<noteq> delivery top_o" "a = Reposition"
      "s' = set_vehicle s vk (veh\<lparr>time := time veh + travel_time s (location veh) (delivery top_o),
                                   location := delivery top_o\<rparr>)"
  | (idle) "a = Idle" "s' = set_vehicle s vk (veh\<lparr>time := time veh + 1\<rparr>)"
  using assms by (auto simp: move_or_idle_def Let_def split: if_splits option.splits)

lemma veh_stepE [consumes 1, case_names skip deliver pickup other]:
  assumes "veh_step u s vk veh = Inr (a, s')"
  obtains
    (skip) "time veh > u" "a = Skipped" "s' = s"
  | (deliver) top_o where "time veh \<le> u" "stack veh \<noteq> []"
      "map_of (orders s) (last (stack veh)) = Some top_o" "location veh = delivery top_o"
      "deliver_step s vk veh (last (stack veh)) top_o = Inr (a, s')"
  | (pickup) feasible where "time veh \<le> u" "feasible_scan s veh (orders s) = Inr feasible"
      "feasible \<noteq> []" "pickup_step s vk veh (hd (sort_key cand_key feasible)) = Inr (a, s')"
      "stack veh \<noteq> [] \<Longrightarrow> \<exists>top_o. map_of (orders s) (last (stack veh)) = Some top_o \<and> location veh \<noteq> delivery top_o"
  | (other) "time veh \<le> u" "feasible_scan s veh (orders s) = Inr []"
      "move_or_idle s vk veh = Inr (a, s')"
      "stack veh \<noteq> [] \<Longrightarrow> \<exists>top_o. map_of (orders s) (last (stack veh)) = Some top_o \<and> location veh \<noteq> delivery top_o"
  using assms
  by (auto simp: veh_step_def select_or_move_def split: if_splits option.splits sum.splits)

lemma feasible_scan_sound:
  "feasible_scan s veh os = Inr cs \<Longrightarrow> ((k, x), arr, tt) \<in> set cs \<Longrightarrow>
   (k, x) \<in> set os \<and> \<not> picked x \<and> \<not> delivered x \<and> load veh + qty x \<le> capacity veh \<and>
   lifo_blocked s veh x = Inr False \<and> tt = travel_time s (location veh) (pickup x) \<and>
   arr = (if arrival x > time veh then arrival x else time veh) + tt"
proof (induction os arbitrary: cs)
  case Nil
  then show ?case by simp
next
  case (Cons a os)
  obtain k' x' where a: "a = (k', x')" by (cases a)
  from Cons.prems Cons.IH show ?case unfolding a
    by (auto simp: Let_def split: if_splits sum.splits bool.splits)
qed

lemma feasible_scan_complete:
  "feasible_scan s veh os = Inr cs \<Longrightarrow> (k, x) \<in> set os \<Longrightarrow> \<not> picked x \<Longrightarrow> \<not> delivered x \<Longrightarrow>
   load veh + qty x \<le> capacity veh \<Longrightarrow> lifo_blocked s veh x = Inr False \<Longrightarrow>
   ((k, x), (if arrival x > time veh then arrival x else time veh)
            + travel_time s (location veh) (pickup x),
    travel_time s (location veh) (pickup x)) \<in> set cs"
proof (induction os arbitrary: cs)
  case Nil
  then show ?case by simp
next
  case (Cons a os)
  obtain k' x' where a: "a = (k', x')" by (cases a)
  from Cons.prems Cons.IH show ?case unfolding a
    by (auto simp: Let_def split: if_splits sum.splits bool.splits)
qed

lemma hd_sort_key_in: "xs \<noteq> [] \<Longrightarrow> hd (sort_key f xs) \<in> set xs"
proof -
  assume "xs \<noteq> []"
  then have "sort_key f xs \<noteq> []" by (metis length_0_conv length_sort)
  then have "hd (sort_key f xs) \<in> set (sort_key f xs)" by (rule hd_in_set)
  then show ?thesis by simp
qed

lemma hd_sort_key_le: "y \<in> set xs \<Longrightarrow> f (hd (sort_key f xs)) \<le> f y"
proof -
  assume y: "y \<in> set xs"
  then have ne: "sort_key f xs \<noteq> []" by (metis empty_iff empty_set set_sort)
  then obtain z zs where zs: "sort_key f xs = z # zs" by (cases "sort_key f xs") auto
  have "sorted (map f (sort_key f xs))" by (rule sorted_sort_key)
  with zs have "\<forall>w \<in> set zs. f z \<le> f w" by simp
  moreover from y have "y \<in> set (z # zs)" using zs by (metis set_sort)
  ultimately show ?thesis using zs by auto
qed

subsection \<open>Invariants of a run\<close>

lemma pass_loop_trace_invariant:
  assumes step: "\<And>t s vk veh a s'. Q t s \<Longrightarrow> map_of (vehicles s) vk = Some veh \<Longrightarrow>
                   veh_step u s vk veh = Inr (a, s') \<Longrightarrow> Q (t @ [(vk, a)]) s'"
  shows "Q (pre @ tr) s \<Longrightarrow> pass_loop u vks pr tr s = Inr (pr', tr', s') \<Longrightarrow> Q (pre @ tr') s'"
proof (induction vks arbitrary: pr tr s)
  case Nil
  then show ?case by simp
next
  case (Cons vk vks)
  from Cons.prems(2) obtain veh a s1 where
    v: "map_of (vehicles s) vk = Some veh" and st: "veh_step u s vk veh = Inr (a, s1)" and
    rest: "pass_loop u vks (if a = Skipped then pr else True) (tr @ [(vk, a)]) s1 = Inr (pr', tr', s')"
    by (auto split: option.splits sum.splits)
  from step[OF Cons.prems(1) v st] have "Q (pre @ (tr @ [(vk, a)])) s1" by simp
  from Cons.IH[OF this rest] show ?case .
qed

lemma dispatch_loop_trace_invariant:
  assumes "\<And>t s vk veh a s'. Q t s \<Longrightarrow> map_of (vehicles s) vk = Some veh \<Longrightarrow>
                   veh_step u s vk veh = Inr (a, s') \<Longrightarrow> Q (t @ [(vk, a)]) s'"
    and "Q tr s" and "dispatch_loop u i tr s = Inr (tr', s')"
  shows "Q tr' s'"
  using assms
proof (induction u i tr s rule: dispatch_loop.induct)
  case (1 u i tr s)
  note step = "1.prems"(1)
  note run = "1.prems"(3)
  show ?case
  proof (cases "i < 20000 \<and> undelivered u s \<noteq> []")
    case False
    with "1.prems"(2) run show ?thesis
      by (auto simp: dispatch_loop.simps[of u i tr s] split: if_splits)
  next
    case True
    with run obtain pr t1 s1 where
      p: "pass_loop u (vehs s) False [] s = Inr (pr, t1, s1)"
      by (auto simp: dispatch_loop.simps[of u i tr s] split: sum.splits)
    have q1: "Q (tr @ t1) s1"
    proof (rule pass_loop_trace_invariant[where Q = Q and tr = "[]" and pre = tr, OF _ _ p])
      show "Q (tr @ []) s" using "1.prems"(2) by simp
    next
      fix t s vk veh a s'
      assume "Q t s" "map_of (vehicles s) vk = Some veh" "veh_step u s vk veh = Inr (a, s')"
      then show "Q (t @ [(vk, a)]) s'" by (rule step)
    qed
    show ?thesis
    proof (cases pr)
      case False
      with True p run have "tr' = tr @ t1" "s' = s1"
        by (auto simp: dispatch_loop.simps[of u i tr s])
      with q1 show ?thesis by simp
    next
      case pr: True
      with True p run have r: "dispatch_loop u (i + 1) (tr @ t1) s1 = Inr (tr', s')"
        by (auto simp: dispatch_loop.simps[of u i tr s])
      show ?thesis
      proof (rule "1.IH"[OF _ _ p refl refl _ _ q1 r])
        show "i < 20000" using True by simp
        show "undelivered u s \<noteq> []" using True by simp
        show "\<not> \<not> pr" using pr by simp
      next
        fix t s vk veh a s'
        assume "Q t s" "map_of (vehicles s) vk = Some veh" "veh_step u s vk veh = Inr (a, s')"
        then show "Q (t @ [(vk, a)]) s'" by (rule step)
      qed
    qed
  qed
qed

lemma simulate_run_trace_invariant:
  assumes "\<And>t s vk veh a s'. Q t s \<Longrightarrow> map_of (vehicles s) vk = Some veh \<Longrightarrow>
                   veh_step u s vk veh = Inr (a, s') \<Longrightarrow> Q (t @ [(vk, a)]) s'"
    and "Q [] (reset s)" and "simulate_run u s = Inr (tr, s')"
  shows "Q tr s'"
  using dispatch_loop_trace_invariant[of Q u "[]" "reset s" 0 tr s'] assms
  unfolding simulate_run_def by blast

lemma simulate_run_invariant:
  assumes "\<And>s vk veh a s'. P s \<Longrightarrow> map_of (vehicles s) vk = Some veh \<Longrightarrow>
                   veh_step u s vk veh = Inr (a, s') \<Longrightarrow> P s'"
    and "P (reset s)" and "simulate_run u s = Inr (tr, s')"
  shows "P s'"
  using simulate_run_trace_invariant[of "\<lambda>t. P" u s tr s'] assms by blast

subsection \<open>Objective computation\<close>

lemma total_late_loop_sum:
  "total_late_loop os acc = acc + sum_list (map (\<lambda>kx. order_late (snd kx)) os)"
  by (induction os acc rule: total_late_loop.induct) simp_all

lemma route_dist_loop_path:
  "route_dist_loop s r prev d = d + path_length s (prev # map fst r)"
  by (induction s r prev d rule: route_dist_loop.induct) simp_all

lemma total_distance_loop_sum:
  "total_distance_loop s vs acc =
     acc + sum_list (map (\<lambda>kv. path_length s (start_location (snd kv) # map fst (route (snd kv)))) vs)"
  by (induction s vs acc rule: total_distance_loop.induct) (simp_all add: route_dist_loop_path)

lemma set_order_all:
  assumes "\<forall>kx \<in> set (orders s). P (snd kx)" and "P v"
  shows "\<forall>kx \<in> set (orders (set_order s k v)). P (snd kx)"
  using assms by (auto simp: set_order_def)

lemma delivered_consistent_reset: "delivered_consistent (reset s)"
  by (auto simp: delivered_consistent_def reset_def)

lemma delivered_consistent_step:
  assumes "delivered_consistent s" and "veh_step u s vk veh = Inr (a, s')"
  shows "delivered_consistent s'"
  using assms(2)
proof (cases rule: veh_stepE)
  case skip
  with assms(1) show ?thesis by simp
next
  case (deliver top_o)
  from deliver(5) show ?thesis
  proof (cases rule: deliver_stepE)
    case (wait occ p)
    then have "orders s' = orders s" by simp
    with assms(1) show ?thesis by (simp add: delivered_consistent_def)
  next
    case (deliver occ p)
    let ?v = "top_o\<lparr>delivered := True, delivered_time := Some (time veh + service_time s top_o)\<rparr>"
    let ?P = "\<lambda>x. delivered x \<longleftrightarrow> delivered_time x \<noteq> None"
    from deliver(5) have o: "orders s' = orders (set_order s (last (stack veh)) ?v)"
      by simp
    have "\<forall>kx \<in> set (orders (set_order s (last (stack veh)) ?v)). ?P (snd kx)"
      by (rule set_order_all) (use assms(1) in \<open>simp_all add: delivered_consistent_def\<close>)
    with o show ?thesis by (simp add: delivered_consistent_def)
  qed
next
  case (pickup feasible)
  obtain ok x arr tt where c: "hd (sort_key cand_key feasible) = ((ok, x), arr, tt)"
    by (metis prod.exhaust)
  have "((ok, x), arr, tt) \<in> set feasible" using hd_sort_key_in[OF pickup(3)] c by metis
  from feasible_scan_sound[OF pickup(2) this] have x: "(ok, x) \<in> set (orders s)" by simp
  with assms(1) have px: "delivered x \<longleftrightarrow> delivered_time x \<noteq> None"
    by (auto simp: delivered_consistent_def)
  from pickup(4)[unfolded c] show ?thesis
  proof (cases rule: pickup_stepE)
    case (wait occ p)
    then have "orders s' = orders s" by simp
    with assms(1) show ?thesis by (simp add: delivered_consistent_def)
  next
    case (pickup occ p)
    let ?P = "\<lambda>x. delivered x \<longleftrightarrow> delivered_time x \<noteq> None"
    from pickup(5) have o: "orders s' = orders (set_order s ok (x\<lparr>picked := True\<rparr>))"
      by simp
    have "\<forall>kx \<in> set (orders (set_order s ok (x\<lparr>picked := True\<rparr>))). ?P (snd kx)"
      by (rule set_order_all) (use assms(1) px in \<open>simp_all add: delivered_consistent_def\<close>)
    with o show ?thesis by (simp add: delivered_consistent_def)
  qed
next
  case other
  from other(3) have "orders s' = orders s"
    by (cases rule: move_or_idleE) simp_all
  with assms(1) show ?thesis by (simp add: delivered_consistent_def)
qed

lemma delivered_consistent_run:
  assumes "simulate_run u s = Inr (tr, s')"
  shows "delivered_consistent s'"
  by (rule simulate_run_invariant[where P = delivered_consistent, OF _ delivered_consistent_reset assms])
     (rule delivered_consistent_step)

text \<open>
  Claim C5: the aggregates returned by \<open>simulate_with_tracking\<close>. Total lateness is the sum
  over all orders of ten times the due time for an undelivered order and of
  max(0, delivered-time - due time) for a delivered one; average distance is the sum over
  the vehicles of the path length of the route log started at the vehicle's initial
  location, divided by the number of vehicles (by 1 when there is none); the objective is
  the lateness weight times total lateness plus the average distance.
\<close>

theorem returned_aggregates:
  assumes "simulate_with_tracking u s = Inr (r, s')"
  shows "total_late r = (\<Sum>kx \<leftarrow> orders s'. order_late (snd kx)) \<and>
         (\<forall>kx \<in> set (orders s').
            (\<not> delivered (snd kx) \<longrightarrow> order_late (snd kx) = due (snd kx) * 10) \<and>
            (delivered (snd kx) \<longrightarrow>
               (\<exists>t. delivered_time (snd kx) = Some t \<and>
                    order_late (snd kx) = max 0 (t - due (snd kx))))) \<and>
         avg_distance r =
           (\<Sum>kv \<leftarrow> vehicles s'. path_length s' (start_location (snd kv) # map fst (route (snd kv))))
             / of_nat (max 1 (length (vehicles s'))) \<and>
         (vehicles s' \<noteq> [] \<longrightarrow>
            avg_distance r =
              (\<Sum>kv \<leftarrow> vehicles s'. path_length s' (start_location (snd kv) # map fst (route (snd kv))))
                / of_nat (length (vehicles s'))) \<and>
         objective r = lambda_cost s' * total_late r + avg_distance r"
proof -
  from assms obtain tr where run: "simulate_run u s = Inr (tr, s')" and r: "r = compute_result s'"
    by (auto simp: simulate_with_tracking_def split: sum.splits)
  have dc: "delivered_consistent s'" by (rule delivered_consistent_run[OF run])
  have a: "total_late r = (\<Sum>kx \<leftarrow> orders s'. order_late (snd kx))"
    by (simp add: r compute_result_def Let_def total_late_loop_sum)
  have b: "\<forall>kx \<in> set (orders s').
            (\<not> delivered (snd kx) \<longrightarrow> order_late (snd kx) = due (snd kx) * 10) \<and>
            (delivered (snd kx) \<longrightarrow>
               (\<exists>t. delivered_time (snd kx) = Some t \<and>
                    order_late (snd kx) = max 0 (t - due (snd kx))))"
    using dc by (auto simp: delivered_consistent_def order_late_def split: option.splits)
  have c: "avg_distance r =
           (\<Sum>kv \<leftarrow> vehicles s'. path_length s' (start_location (snd kv) # map fst (route (snd kv))))
             / of_nat (max 1 (length (vehicles s')))"
    by (simp add: r compute_result_def Let_def total_distance_loop_sum)
  have d: "vehicles s' \<noteq> [] \<longrightarrow>
            avg_distance r =
              (\<Sum>kv \<leftarrow> vehicles s'. path_length s' (start_location (snd kv) # map fst (route (snd kv))))
                / of_nat (length (vehicles s'))"
  proof
    assume "vehicles s' \<noteq> []"
    then have "max 1 (length (vehicles s')) = length (vehicles s')"
      by (cases "vehicles s'") simp_all
    with c show "avg_distance r =
              (\<Sum>kv \<leftarrow> vehicles s'. path_length s' (start_location (snd kv) # map fst (route (snd kv))))
                / of_nat (length (vehicles s'))" by simp
  qed
  have e: "objective r = lambda_cost s' * total_late r + avg_distance r"
    by (simp add: r compute_result_def Let_def)
  show ?thesis by (rule conjI[OF a conjI[OF b conjI[OF c conjI[OF d e]]]])
qed

lemmas eval_defs = simulate_with_tracking_def simulate_run_def reset_def
  mk_order_def mk_vehicle_def mk_plant_def
  undelivered_def vehs_def veh_step_def select_or_move_def move_or_idle_def pickup_step_def
  deliver_step_def lifo_blocked_def cand_key_def service_time_def free_docks_def occupy_dock_def
  set_order_def set_vehicle_def travel_time_def distance_def compute_result_def order_late_def
  Let_def dispatch_loop.simps

lemma ref_run_values:
  "case simulate_with_tracking 480 ref_sim of Inl e \<Rightarrow> False
   | Inr (r, s') \<Rightarrow> total_late r = 0 \<and> avg_distance r = 41 \<and> objective r = 41"
  by (simp add: eval_defs ref_sim_def ref_distances_def)

theorem returned_aggregates_witness:
  "\<exists>r s'. simulate_with_tracking 480 tiny_sim = Inr (r, s') \<and>
     total_late r = 12 \<and> avg_distance r = 22 \<and> objective r = 1222 \<and>
     total_late r = (\<Sum>kx \<leftarrow> orders s'. order_late (snd kx)) \<and>
     objective r = lambda_cost s' * total_late r + avg_distance r"
proof -
  have "case simulate_with_tracking 480 tiny_sim of Inl e \<Rightarrow> False
        | Inr (r, s') \<Rightarrow> total_late r = 12 \<and> avg_distance r = 22 \<and> objective r = 1222"
    by (simp add: eval_defs tiny_sim_def)
  then obtain r s' where run: "simulate_with_tracking 480 tiny_sim = Inr (r, s')"
    and v: "total_late r = 12" "avg_distance r = 22" "objective r = 1222"
    by (auto split: sum.splits)
  from returned_aggregates[OF run] run v show ?thesis by blast
qed

subsection \<open>Pickup selection\<close>

lemma lifo_blocked_spec:
  "lifo_blocked s veh x = Inr False \<longleftrightarrow>
     (stack veh \<noteq> [] \<longrightarrow>
        (\<exists>top_o. map_of (orders s) (last (stack veh)) = Some top_o \<and> due top_o \<le> due x))"
  by (auto simp: lifo_blocked_def split: option.splits)

lemma feasible_scan_candidates:
  assumes "feasible_scan s veh (orders s) = Inr cs"
  shows "((k, x), arr, tt) \<in> set cs \<longleftrightarrow>
           (k, x) \<in> set (orders s) \<and> scan_feasible s veh x \<and>
           arr = projected_arrival s veh x \<and> tt = travel_time s (location veh) (pickup x)"
proof
  assume "((k, x), arr, tt) \<in> set cs"
  from feasible_scan_sound[OF assms this] show
    "(k, x) \<in> set (orders s) \<and> scan_feasible s veh x \<and>
     arr = projected_arrival s veh x \<and> tt = travel_time s (location veh) (pickup x)"
    by (auto simp: scan_feasible_def projected_arrival_def lifo_blocked_spec max_def)
next
  assume a: "(k, x) \<in> set (orders s) \<and> scan_feasible s veh x \<and>
     arr = projected_arrival s veh x \<and> tt = travel_time s (location veh) (pickup x)"
  then have "lifo_blocked s veh x = Inr False"
    by (simp add: scan_feasible_def lifo_blocked_spec)
  with a feasible_scan_complete[OF assms, of k x] show "((k, x), arr, tt) \<in> set cs"
    by (auto simp: scan_feasible_def projected_arrival_def max_def)
qed

text \<open>
  A committed pickup passes the test of the scan, and its pair (due time, projected
  pickup-arrival time) is lexicographically least among the orders that pass it.
\<close>

lemma committed_pickup_scan_least:
  assumes "veh_step u s vk veh = Inr (Pickup ok oid finish, s')"
  shows "\<exists>x. (ok, x) \<in> set (orders s) \<and> order_id x = oid \<and> scan_feasible s veh x \<and>
           finish = projected_arrival s veh x + service_time s x \<and>
           (\<forall>ky \<in> set (orders s). scan_feasible s veh (snd ky) \<longrightarrow>
              due x < due (snd ky) \<or>
              (due x = due (snd ky) \<and>
               projected_arrival s veh x \<le> projected_arrival s veh (snd ky)))"
  using assms
proof (cases rule: veh_stepE)
  case skip
  then show ?thesis by simp
next
  case (deliver top_o)
  from deliver(5) show ?thesis by (cases rule: deliver_stepE) simp_all
next
  case other
  from other(3) show ?thesis by (cases rule: move_or_idleE) simp_all
next
  case (pickup feasible)
  obtain k x arr tt where c: "hd (sort_key cand_key feasible) = ((k, x), arr, tt)"
    by (metis prod.exhaust)
  have mem: "((k, x), arr, tt) \<in> set feasible" using hd_sort_key_in[OF pickup(3)] c by metis
  note cand = feasible_scan_candidates[OF pickup(2)]
  from mem cand have x: "(k, x) \<in> set (orders s)" "scan_feasible s veh x"
    "arr = projected_arrival s veh x" by blast+
  from pickup(4)[unfolded c] have act: "ok = k" "oid = order_id x" "finish = arr + service_time s x"
    by (cases rule: pickup_stepE; simp)+
  have least: "due x < due (snd ky) \<or>
              (due x = due (snd ky) \<and>
               projected_arrival s veh x \<le> projected_arrival s veh (snd ky))"
    if ky: "ky \<in> set (orders s)" "scan_feasible s veh (snd ky)" for ky
  proof -
    let ?c = "((fst ky, snd ky), projected_arrival s veh (snd ky),
               travel_time s (location veh) (pickup (snd ky)))"
    from ky cand[of "fst ky" "snd ky"] have "?c \<in> set feasible" by simp
    from hd_sort_key_le[OF this, of cand_key] c
    have "cand_key ((k, x), arr, tt) \<le> cand_key ?c" by simp
    then show ?thesis
      by (auto simp: cand_key_def x(3) less_eq_prod_def)
  qed
  from x act least show ?thesis by blast
qed

text \<open>
  When every order is stored under its own id, the test of the scan is feasibility as the
  specification words it, and the committed pickup is feasible and least in that sense.
\<close>

lemma scan_feasible_spec:
  assumes ids: "\<forall>ky \<in> set (orders s). order_id (snd ky) = fst ky"
    and d: "distinct (map fst (orders s))"
  shows "scan_feasible s veh x \<longleftrightarrow> spec_feasible s veh x"
proof -
  have "(\<exists>top_o. map_of (orders s) k = Some top_o \<and> due top_o \<le> due x) \<longleftrightarrow>
        (\<exists>ky \<in> set (orders s). order_id (snd ky) = k \<and> due (snd ky) \<le> due x)" for k
  proof
    assume "\<exists>top_o. map_of (orders s) k = Some top_o \<and> due top_o \<le> due x"
    then obtain top_o where t: "map_of (orders s) k = Some top_o" "due top_o \<le> due x"
      by blast
    from t(1) have m: "(k, top_o) \<in> set (orders s)" by (rule map_of_SomeD)
    with ids have "order_id top_o = k" by fastforce
    with m t(2) show "\<exists>ky \<in> set (orders s). order_id (snd ky) = k \<and> due (snd ky) \<le> due x"
      by force
  next
    assume "\<exists>ky \<in> set (orders s). order_id (snd ky) = k \<and> due (snd ky) \<le> due x"
    then obtain ky where ky: "ky \<in> set (orders s)" "order_id (snd ky) = k"
      "due (snd ky) \<le> due x" by blast
    from ids ky(1,2) have "fst ky = k" by simp
    with ky(1) have "(k, snd ky) \<in> set (orders s)" by (metis prod.collapse)
    with d have "map_of (orders s) k = Some (snd ky)" by simp
    with ky(3) show "\<exists>top_o. map_of (orders s) k = Some top_o \<and> due top_o \<le> due x"
      by blast
  qed
  then show ?thesis unfolding scan_feasible_def spec_feasible_def by blast
qed

lemma committed_pickup_spec_least:
  assumes run: "veh_step u s vk veh = Inr (Pickup ok oid finish, s')"
    and ids: "\<forall>ky \<in> set (orders s). order_id (snd ky) = fst ky"
    and d: "distinct (map fst (orders s))"
  shows "\<exists>x. (ok, x) \<in> set (orders s) \<and> order_id x = oid \<and> spec_feasible s veh x \<and>
           finish = projected_arrival s veh x + service_time s x \<and>
           (\<forall>ky \<in> set (orders s). spec_feasible s veh (snd ky) \<longrightarrow>
              due x < due (snd ky) \<or>
              (due x = due (snd ky) \<and>
               projected_arrival s veh x \<le> projected_arrival s veh (snd ky)))"
  using committed_pickup_scan_least[OF run] unfolding scan_feasible_spec[OF ids d] .

text \<open>
  Claim C6: a committed pickup is feasible (not picked, not delivered, within the
  capacity, and due no earlier than the order on top of the stack) and least in (due
  time, projected pickup-arrival time) among the feasible orders. The code breaks the
  LIFO part on an order dictionary that block-exchange has produced. The three orders of
  \<open>lifo_sim\<close> wait at plant 1 with due times 100, 200 and 150; the exchange stores
  order 2 under key 1 and order 1 under key 2. In the run that an evaluation of
  this dictionary starts (horizon 24 * 60), the vehicle loads order 1 (it pushes the id
  1), then order 2 (it pushes the id 2), so that order 2 with due time 200 is on top of
  its stack. On its third turn the scan looks up key 2, finds order 1 with due time 100,
  and the vehicle commits order 3 with due time 150, which is not feasible: it is due
  before the order on top of the stack. An entry \<open>Pickup k i t\<close> of the run's log is the
  pickup of the order stored under key \<open>k\<close>, whose id is \<open>i\<close>, finished at time \<open>t\<close>.
\<close>

theorem exchanged_pickup_breaks_lifo:
  "block_exchange (0, 0) (orders lifo_sim)
     = [(1, mk_order 2 1 3 1 0 200), (2, mk_order 1 1 2 1 0 100), (3, mk_order 3 1 2 1 0 150)] \<and>
   map_sum id fst
       (simulate_run (24 * 60) (lifo_sim\<lparr>orders := block_exchange (0, 0) (orders lifo_sim)\<rparr>))
     = Inr [(1, Pickup 2 1 16), (1, Pickup 1 2 22), (1, Pickup 3 3 28), (1, Reposition),
            (1, Deliver 3 54), (1, Deliver 2 60), (1, Reposition), (1, Deliver 1 81)] \<and>
   (case vehicle_turns (24 * 60) 1 2
           (reset (lifo_sim\<lparr>orders := block_exchange (0, 0) (orders lifo_sim)\<rparr>)) of
      None \<Rightarrow> False
    | Some s \<Rightarrow>
        (case map_of (vehicles s) 1 of
           None \<Rightarrow> False
         | Some veh \<Rightarrow>
             stack veh = [1, 2] \<and>
             (3, mk_order 3 1 2 1 0 150) \<in> set (orders s) \<and>
             \<not> spec_feasible s veh (mk_order 3 1 2 1 0 150) \<and>
             (case veh_step (24 * 60) s 1 veh of
                Inl e \<Rightarrow> False
              | Inr (a, s') \<Rightarrow> a = Pickup 3 3 28)))"
  by (simp add: eval_defs spec_feasible_def lifo_sim_def block_exchange_def sample2_def
      numeral_2_eq_2)

subsection \<open>Waiting for a dock at the pickup plant\<close>




subsection \<open>Progress of a pass\<close>

lemma veh_step_skipped_iff:
  assumes "veh_step u s vk veh = Inr (a, s')"
  shows "a = Skipped \<longleftrightarrow> time veh > u"
  using assms
proof (cases rule: veh_stepE)
  case skip
  then show ?thesis by simp
next
  case (deliver top_o)
  from deliver(5) have "a \<noteq> Skipped" by (cases rule: deliver_stepE) simp_all
  with deliver(1) show ?thesis by simp
next
  case (pickup feasible)
  obtain k x arr tt where c: "hd (sort_key cand_key feasible) = ((k, x), arr, tt)"
    by (metis prod.exhaust)
  from pickup(4)[unfolded c] have "a \<noteq> Skipped" by (cases rule: pickup_stepE) simp_all
  with pickup(1) show ?thesis by simp
next
  case other
  from other(3) have "a \<noteq> Skipped" by (cases rule: move_or_idleE) simp_all
  with other(1) show ?thesis by simp
qed

lemma pass_loop_progress:
  "pass_loop u vks pr tr s = Inr (pr', tr', s') \<Longrightarrow>
   \<exists>ext. tr' = tr @ ext \<and> (pr' \<longleftrightarrow> pr \<or> (\<exists>ka \<in> set ext. snd ka \<noteq> Skipped))"
proof (induction vks arbitrary: pr tr s)
  case Nil
  then show ?case by simp
next
  case (Cons vk vks)
  from Cons.prems obtain veh a s1 where
    v: "map_of (vehicles s) vk = Some veh" and st: "veh_step u s vk veh = Inr (a, s1)" and
    rest: "pass_loop u vks (if a = Skipped then pr else True) (tr @ [(vk, a)]) s1 = Inr (pr', tr', s')"
    by (auto split: option.splits sum.splits)
  from Cons.IH[OF rest] obtain ext where
    e: "tr' = (tr @ [(vk, a)]) @ ext"
       "pr' \<longleftrightarrow> (if a = Skipped then pr else True) \<or> (\<exists>ka \<in> set ext. snd ka \<noteq> Skipped)"
    by blast
  show ?case
  proof (intro exI[of _ "(vk, a) # ext"] conjI)
    show "tr' = tr @ (vk, a) # ext" using e(1) by simp
    show "pr' \<longleftrightarrow> pr \<or> (\<exists>ka \<in> set ((vk, a) # ext). snd ka \<noteq> Skipped)"
      using e(2) by (cases "a = Skipped") auto
  qed
qed

text \<open>
  Claim C3, as the code has it: a pass counts as having progressed exactly when at least
  one vehicle was considered, that is, took any action other than being skipped; a vehicle
  is skipped exactly when its clock is beyond the horizon, so the idle rule and the dock
  waits count as progress too. The outer loop halts after any pass that yields no progress.
\<close>

theorem pass_progress_rule:
  "(pass_loop u vks False [] s = Inr (progressed, tr, s') \<longrightarrow>
      (progressed \<longleftrightarrow> (\<exists>ka \<in> set tr. snd ka \<noteq> Skipped))) \<and>
   (veh_step u s vk veh = Inr (a, s1) \<longrightarrow> (a = Skipped \<longleftrightarrow> time veh > u)) \<and>
   (i < 20000 \<and> undelivered u s \<noteq> [] \<and> pass_loop u (vehs s) False [] s = Inr (False, tr, s')
      \<longrightarrow> dispatch_loop u i tr0 s = Inr (tr0 @ tr, s'))"
proof (intro conjI impI)
  assume "pass_loop u vks False [] s = Inr (progressed, tr, s')"
  from pass_loop_progress[OF this]
  show "progressed \<longleftrightarrow> (\<exists>ka \<in> set tr. snd ka \<noteq> Skipped)" by auto
next
  assume "veh_step u s vk veh = Inr (a, s1)"
  then show "a = Skipped \<longleftrightarrow> time veh > u" by (rule veh_step_skipped_iff)
next
  assume "i < 20000 \<and> undelivered u s \<noteq> [] \<and>
          pass_loop u (vehs s) False [] s = Inr (False, tr, s')"
  then show "dispatch_loop u i tr0 s = Inr (tr0 @ tr, s')"
    by (simp add: dispatch_loop.simps[of u i tr0 s])
qed

lemma idle_pass:
  "pass_loop 2 (vehs (reset idle_sim)) False [] (reset idle_sim) = Inr (True, [(1, Idle)], idle_at 1)"
  by (simp add: eval_defs idle_sim_def idle_at_def)

lemma skipped_pass:
  "pass_loop 2 (vehs (idle_at 3)) False [] (idle_at 3) = Inr (False, [(1, Skipped)], idle_at 3)"
  by (simp add: eval_defs idle_sim_def idle_at_def)

lemma skipped_step:
  "veh_step 2 (idle_at 3) 1 ((mk_vehicle 1 1 0)\<lparr>time := 3\<rparr>) = Inr (Skipped, idle_at 3)"
  by (simp add: eval_defs idle_sim_def idle_at_def)

lemma idle_undelivered: "undelivered 2 (idle_at 3) \<noteq> []"
  by (simp add: eval_defs idle_sim_def idle_at_def)

theorem pass_progress_rule_witness:
  "pass_loop 2 (vehs (reset idle_sim)) False [] (reset idle_sim) = Inr (True, [(1, Idle)], idle_at 1) \<and>
   (True \<longleftrightarrow> (\<exists>ka \<in> set [(1 :: int, Idle)]. snd ka \<noteq> Skipped)) \<and>
   veh_step 2 (idle_at 3) 1 ((mk_vehicle 1 1 0)\<lparr>time := 3\<rparr>) = Inr (Skipped, idle_at 3) \<and>
   (Skipped = Skipped \<longleftrightarrow> time ((mk_vehicle 1 1 0)\<lparr>time := 3\<rparr>) > 2) \<and>
   (7 :: nat) < 20000 \<and> undelivered 2 (idle_at 3) \<noteq> [] \<and>
   pass_loop 2 (vehs (idle_at 3)) False [] (idle_at 3) = Inr (False, [(1, Skipped)], idle_at 3) \<and>
   dispatch_loop 2 7 [] (idle_at 3) = Inr ([] @ [(1, Skipped)], idle_at 3)"
  using idle_pass skipped_pass skipped_step idle_undelivered
    pass_progress_rule[where u = 2 and vks = "vehs (reset idle_sim)" and s = "reset idle_sim"
      and progressed = True and tr = "[(1, Idle)]" and s' = "idle_at 1"
      and vk = 1 and veh = "(mk_vehicle 1 1 0)\<lparr>time := 3\<rparr>" and a = Idle and ?s1.0 = "idle_at 3"
      and i = 7 and ?tr0.0 = "[]"]
    pass_progress_rule[where u = 2 and vks = "vehs (idle_at 3)" and s = "idle_at 3"
      and progressed = False and tr = "[(1, Skipped)]" and s' = "idle_at 3"
      and vk = 1 and veh = "(mk_vehicle 1 1 0)\<lparr>time := 3\<rparr>" and a = Skipped and ?s1.0 = "idle_at 3"
      and i = 7 and ?tr0.0 = "[]"]
  by (simp add: mk_vehicle_def)

text \<open>
  The claim as stated fails: in the scenario whose only order does not fit the only
  vehicle, the first pass consists of one idle step and yet counts as progress, and the
  run to horizon 2 goes on idling until the vehicle's clock is beyond the horizon.
\<close>

theorem idle_pass_progress_counterexample:
  "pass_loop 2 (vehs (reset idle_sim)) False [] (reset idle_sim) = Inr (True, [(1, Idle)], idle_at 1) \<and>
   simulate_run 2 idle_sim = Inr ([(1, Idle), (1, Idle), (1, Idle), (1, Skipped)], idle_at 3)"
  by (simp add: eval_defs idle_sim_def idle_at_def)

subsection \<open>The configuration is read-only\<close>

lemma same_config_refl [simp]: "same_config s s"
  by (simp add: same_config_def)

lemma same_config_trans: "same_config s s' \<Longrightarrow> same_config s' s'' \<Longrightarrow> same_config s s''"
  by (simp add: same_config_def)

lemma same_config_reset [simp]: "same_config s (reset s)"
  by (simp add: same_config_def reset_def)

lemma veh_step_same_config:
  assumes "veh_step u s vk veh = Inr (a, s')"
  shows "same_config s s'"
  using assms
proof (cases rule: veh_stepE)
  case skip
  then show ?thesis by simp
next
  case (deliver top_o)
  from deliver(5) show ?thesis
    by (cases rule: deliver_stepE) (simp_all add: same_config_def)
next
  case (pickup feasible)
  obtain k x arr tt where c: "hd (sort_key cand_key feasible) = ((k, x), arr, tt)"
    by (metis prod.exhaust)
  from pickup(4)[unfolded c] show ?thesis
    by (cases rule: pickup_stepE) (simp_all add: same_config_def)
next
  case other
  from other(3) show ?thesis
    by (cases rule: move_or_idleE) (simp_all add: same_config_def)
qed

lemma reachable_same_config: "s \<in> reachable u s0 \<Longrightarrow> same_config s0 s"
proof (induction rule: reachable.induct)
  case start
  show ?case by simp
next
  case (turn s vk veh a s')
  from turn.IH veh_step_same_config[OF turn.hyps(3)] show ?case by (rule same_config_trans)
qed

lemma simulate_run_reachable:
  assumes "simulate_run u s0 = Inr (tr, s')"
  shows "s' \<in> reachable u s0"
  by (rule simulate_run_invariant[where P = "\<lambda>s. s \<in> reachable u s0", OF _ reachable.start assms])
     (rule reachable.turn)

subsection \<open>Dock occupancy\<close>

lemma dock_bound_prune:
  assumes "dock_bound s" and "dock_occupancy s pid = Some occ"
  shows "dock_bound (s\<lparr>dock_occupancy := (dock_occupancy s)(pid \<mapsto> filter f occ)\<rparr>)"
  unfolding dock_bound_def
proof (intro allI impI)
  fix q occ' p
  assume a: "dock_occupancy (s\<lparr>dock_occupancy := (dock_occupancy s)(pid \<mapsto> filter f occ)\<rparr>) q = Some occ'"
    and p: "plants (s\<lparr>dock_occupancy := (dock_occupancy s)(pid \<mapsto> filter f occ)\<rparr>) q = Some p"
  show "int (length occ') \<le> docks p"
  proof (cases "q = pid")
    case True
    with a have o: "occ' = filter f occ" by simp
    from assms True p have b: "int (length occ) \<le> docks p" by (simp add: dock_bound_def)
    have "int (length (filter f occ)) \<le> int (length occ)"
      by (simp only: of_nat_le_iff length_filter_le)
    from this b show ?thesis unfolding o by (rule order_trans)
  next
    case False
    with a p assms(1) show ?thesis by (simp add: dock_bound_def)
  qed
qed

lemma dock_bound_reserve:
  assumes "dock_bound s" and "dock_occupancy s pid = Some occ" and "plants s pid = Some p"
    and "int (length (filter f occ)) < docks p"
  shows "dock_bound (s\<lparr>dock_occupancy := (dock_occupancy s)(pid \<mapsto> filter f occ @ [r])\<rparr>)"
  unfolding dock_bound_def
proof (intro allI impI)
  fix q occ' p'
  assume a: "dock_occupancy (s\<lparr>dock_occupancy := (dock_occupancy s)(pid \<mapsto> filter f occ @ [r])\<rparr>) q = Some occ'"
    and p: "plants (s\<lparr>dock_occupancy := (dock_occupancy s)(pid \<mapsto> filter f occ @ [r])\<rparr>) q = Some p'"
  show "int (length occ') \<le> docks p'"
  proof (cases "q = pid")
    case True
    with a have "occ' = filter f occ @ [r]" by simp
    moreover from True p assms(3) have "p' = p" by simp
    ultimately show ?thesis using assms(4) by simp
  next
    case False
    with a p assms(1) show ?thesis by (simp add: dock_bound_def)
  qed
qed

lemma dock_bound_cong:
  "dock_occupancy s' = dock_occupancy s \<Longrightarrow> plants s' = plants s \<Longrightarrow> dock_bound s' = dock_bound s"
  by (simp add: dock_bound_def)

lemma dock_bound_step:
  assumes "dock_bound s" and "veh_step u s vk veh = Inr (a, s')"
  shows "dock_bound s'"
  using assms(2)
proof (cases rule: veh_stepE)
  case skip
  with assms(1) show ?thesis by simp
next
  case (deliver top_o)
  from deliver(5) show ?thesis
  proof (cases rule: deliver_stepE)
    case (wait occ p)
    have "dock_bound s' = dock_bound (s\<lparr>dock_occupancy := (dock_occupancy s)(location veh \<mapsto>
               filter (\<lambda>r. snd r > time veh) occ)\<rparr>)"
      by (rule dock_bound_cong) (simp_all add: wait(5))
    with dock_bound_prune[OF assms(1) wait(1)] show ?thesis by simp
  next
    case (deliver occ p)
    have "dock_bound s' = dock_bound (s\<lparr>dock_occupancy := (dock_occupancy s)(location veh \<mapsto>
               filter (\<lambda>r. snd r > time veh) occ @ [(vehicle_id veh, time veh + service_time s top_o)])\<rparr>)"
      by (rule dock_bound_cong) (simp_all add: deliver(5))
    with dock_bound_reserve[OF assms(1) deliver(1,2,3)] show ?thesis by simp
  qed
next
  case (pickup feasible)
  obtain k x arr tt where c: "hd (sort_key cand_key feasible) = ((k, x), arr, tt)"
    by (metis prod.exhaust)
  from pickup(4)[unfolded c] show ?thesis
  proof (cases rule: pickup_stepE)
    case (wait occ p)
    have "dock_bound s' = dock_bound (s\<lparr>dock_occupancy := (dock_occupancy s)(pickup x \<mapsto>
               filter (\<lambda>r. snd r > arr) occ)\<rparr>)"
      by (rule dock_bound_cong) (simp_all add: wait(5))
    with dock_bound_prune[OF assms(1) wait(1)] show ?thesis by simp
  next
    case (pickup occ p)
    have "dock_bound s' = dock_bound (s\<lparr>dock_occupancy := (dock_occupancy s)(pickup x \<mapsto>
               filter (\<lambda>r. snd r > arr) occ @ [(vehicle_id veh, arr + service_time s x)])\<rparr>)"
      by (rule dock_bound_cong) (simp_all add: pickup(5))
    with dock_bound_reserve[OF assms(1) pickup(1,2,3)] show ?thesis by simp
  qed
next
  case other
  from other(3) have "dock_bound s' = dock_bound s"
    by (cases rule: move_or_idleE) (simp_all add: dock_bound_def)
  with assms(1) show ?thesis by simp
qed

lemma dock_bound_reset:
  assumes "\<forall>pid p. plants s0 pid = Some p \<longrightarrow> 0 \<le> docks p"
  shows "dock_bound (reset s0)"
  using assms by (auto simp: dock_bound_def reset_def split: option.splits)

lemma reachable_dock_bound:
  assumes "\<forall>pid p. plants s0 pid = Some p \<longrightarrow> 0 \<le> docks p" and "s \<in> reachable u s0"
  shows "dock_bound s"
  using assms(2)
proof (induction rule: reachable.induct)
  case start
  show ?case by (rule dock_bound_reset[OF assms(1)])
next
  case (turn s vk veh a s')
  from turn.IH turn.hyps(3) show ?case by (rule dock_bound_step)
qed

text \<open>
  Claim C7: at every dock-capacity query of a run over plants with non-negative dock
  counts, the query first prunes the expired reservations of the queried plant (those
  whose release time is not after the query time) and counts what is left; and for every
  plant the number of reservations active at the query time does not exceed the plant's
  dock count.
\<close>

theorem dock_capacity_respected:
  assumes "\<forall>pid p. plants s0 pid = Some p \<longrightarrow> 0 \<le> docks p"
    and "s \<in> reachable u s0"
    and "free_docks s pid t = Inr (n, s1)"
  shows "(\<exists>occ p. dock_occupancy s pid = Some occ \<and> plants s pid = Some p \<and>
            dock_occupancy s1 = (dock_occupancy s)(pid \<mapsto> filter (\<lambda>r. snd r > t) occ) \<and>
            n = docks p - int (length (filter (\<lambda>r. snd r > t) occ))) \<and>
         (\<forall>q occ p. dock_occupancy s1 q = Some occ \<and> plants s1 q = Some p \<longrightarrow>
            int (length (filter (\<lambda>r. snd r > t) occ)) \<le> docks p)"
proof -
  have db: "dock_bound s" by (rule reachable_dock_bound[OF assms(1,2)])
  from assms(3) obtain occ p where q: "dock_occupancy s pid = Some occ" "plants s pid = Some p"
    "n = max 0 (docks p - int (length (filter (\<lambda>r. snd r > t) occ)))"
    "s1 = s\<lparr>dock_occupancy := (dock_occupancy s)(pid \<mapsto> filter (\<lambda>r. snd r > t) occ)\<rparr>"
    by (rule free_docksE)
  have db1: "dock_bound s1" unfolding q(4) by (rule dock_bound_prune[OF db q(1)])
  have "dock_occupancy s1 pid = Some (filter (\<lambda>r. snd r > t) occ)" "plants s1 pid = Some p"
    using q by simp_all
  with db1 have "int (length (filter (\<lambda>r. snd r > t) occ)) \<le> docks p"
    unfolding dock_bound_def by blast
  with q(3) have n: "n = docks p - int (length (filter (\<lambda>r. snd r > t) occ))" by simp
  have all: "int (length (filter (\<lambda>r. snd r > t) occ')) \<le> docks p'"
    if "dock_occupancy s1 q = Some occ' \<and> plants s1 q = Some p'" for q occ' p'
  proof -
    from db1 that have b: "int (length occ') \<le> docks p'" unfolding dock_bound_def by blast
    have "int (length (filter (\<lambda>r. snd r > t) occ')) \<le> int (length occ')"
      by (simp only: of_nat_le_iff length_filter_le)
    from this b show ?thesis by (rule order_trans)
  qed
  from q n all show ?thesis by (simp add: q(4))
qed

theorem dock_capacity_respected_witness:
  "\<exists>s n s1. s \<in> reachable 480 ref_sim \<and> free_docks s 1 35 = Inr (n, s1) \<and> n = 1 \<and>
     dock_occupancy s 1 = Some [(1, 42)] \<and>
     (\<forall>q occ p. dock_occupancy s1 q = Some occ \<and> plants s1 q = Some p \<longrightarrow>
        int (length (filter (\<lambda>r. snd r > 35) occ)) \<le> docks p)"
proof -
  have nonneg: "\<forall>pid p. plants ref_sim pid = Some p \<longrightarrow> 0 \<le> docks p"
    by (auto simp: ref_sim_def mk_plant_def split: if_splits)
  have v: "map_of (vehicles (reset ref_sim)) 1 = Some (mk_vehicle 1 5 0)"
    by (simp add: reset_def ref_sim_def mk_vehicle_def)
  have "case veh_step 480 (reset ref_sim) 1 (mk_vehicle 1 5 0) of Inl e \<Rightarrow> False
        | Inr (a, s) \<Rightarrow> dock_occupancy s 1 = Some [(1, 42)] \<and>
            (case free_docks s 1 35 of Inl e \<Rightarrow> False | Inr (n, s1) \<Rightarrow> n = 1)"
    by (simp add: eval_defs ref_sim_def ref_distances_def)
  then obtain a s where
    st: "veh_step 480 (reset ref_sim) 1 (mk_vehicle 1 5 0) = Inr (a, s)"
    and occ: "dock_occupancy s 1 = Some [(1, 42)]"
    and q: "case free_docks s 1 35 of Inl e \<Rightarrow> False | Inr (n, s1) \<Rightarrow> n = 1"
    by (cases "veh_step 480 (reset ref_sim) 1 (mk_vehicle 1 5 0)") auto
  from q obtain n s1 where fd: "free_docks s 1 35 = Inr (n, s1)" and n: "n = 1"
    by (cases "free_docks s 1 35") auto
  have r: "s \<in> reachable 480 ref_sim" by (rule reachable.turn[OF reachable.start v st])
  from dock_capacity_respected[OF nonneg r fd] r fd n occ show ?thesis by blast
qed

section \<open>Properties of the optimizer\<close>

lemma local_search_best:
  "local_search opt rnd ms st = Inr (improved, st') \<Longrightarrow>
   best_cost st' \<le> best_cost st \<and>
   (improved \<longrightarrow> best_cost st' < best_cost st \<and>
      (\<exists>cand. evaluate opt cand = Inr (best_cost st', best_res st'))) \<and>
   (\<not> improved \<longrightarrow> best_cost st' = best_cost st \<and> best_res st' = best_res st)"
proof (induction ms arbitrary: st)
  case Nil
  then show ?case by simp
next
  case (Cons m ms)
  obtain cand c where am: "apply_move rnd m (initial_orders st) (draws st) = (cand, c)"
    by (cases "apply_move rnd m (initial_orders st) (draws st)")
  from Cons.prems am obtain cc cr where ev: "evaluate opt cand = Inr (cc, cr)"
    by (cases "evaluate opt cand") auto
  show ?case
  proof (cases "cc < best_cost st")
    case True
    with Cons.prems am ev show ?thesis by auto
  next
    case False
    with Cons.prems am ev have "local_search opt rnd ms (st\<lparr>draws := c\<rparr>) = Inr (improved, st')"
      by simp
    from Cons.IH[OF this] show ?thesis by simp
  qed
qed

lemma opt_round_best:
  assumes "opt_round opt rnd st = Inr (continue, st')"
  shows "best_cost st' \<le> best_cost st \<and>
         (best_cost st' \<noteq> best_cost st \<longrightarrow>
            best_cost st' < best_cost st \<and>
            (\<exists>cand. evaluate opt cand = Inr (best_cost st', best_res st')))"
proof -
  from assms obtain improved st1 where
    ls: "local_search opt rnd [CoupleExchange, BlockExchange, BlockRelocate, MultiRelocate] st
           = Inr (improved, st1)"
    unfolding opt_round_def by (auto split: sum.splits)
  note b = local_search_best[OF ls]
  from assms ls have "best_cost st' = best_cost st1 \<and> best_res st' = best_res st1"
    unfolding opt_round_def by (auto simp: Let_def split: sum.splits if_splits)
  with b show ?thesis by (cases improved) auto
qed

lemma optimize_loop_best:
  "optimize_loop opt rnd start clock st = Some (Inr st') \<Longrightarrow> best_cost st' \<le> best_cost st"
proof (induction clock arbitrary: st)
  case Nil
  then show ?case by simp
next
  case (Cons now clock)
  show ?case
  proof (cases "now - start < max_time opt")
    case False
    with Cons.prems show ?thesis by simp
  next
    case True
    with Cons.prems obtain continue st1 where r: "opt_round opt rnd st = Inr (continue, st1)"
      by (cases "opt_round opt rnd st") auto
    from opt_round_best[OF r] have le: "best_cost st1 \<le> best_cost st" by simp
    show ?thesis
    proof (cases continue)
      case True
      with \<open>now - start < max_time opt\<close> r Cons.prems
      have "optimize_loop opt rnd start clock st1 = Some (Inr st')" by simp
      from Cons.IH[OF this] le show ?thesis by simp
    next
      case False
      with \<open>now - start < max_time opt\<close> r Cons.prems have "st' = st1" by simp
      with le show ?thesis by simp
    qed
  qed
qed

lemma optimize_best:
  assumes a: "optimize opt rnd clock os = Some (Inr (cost, res))"
  shows "\<exists>c0 r0. evaluate opt os = Inr (c0, r0) \<and> cost \<le> c0"
proof -
  from a obtain start clock' where c: "clock = start # clock'"
    by (cases clock) (auto simp: optimize_def)
  from a c obtain c0 r0 where ev: "evaluate opt os = Inr (c0, r0)"
    by (cases "evaluate opt os") (auto simp: optimize_def)
  let ?st0 = "\<lparr>best_cost = c0, best_res = r0, best_orders = os,
               initial_cost = c0, initial_res = r0, initial_orders = os, draws = 0\<rparr>"
  from a c ev obtain stf where l: "optimize_loop opt rnd start clock' ?st0 = Some (Inr stf)"
    and f: "cost = best_cost stf"
    by (auto simp: optimize_def split: option.splits sum.splits)
  from optimize_loop_best[OF l] f have "cost \<le> c0" by simp
  with ev show ?thesis by blast
qed

text \<open>
  The main loop returns as soon as a clock reading is at or beyond the budget: it cannot
  use up a list of readings that contains one.
\<close>

lemma optimize_loop_returns:
  "\<exists>now \<in> set clock. \<not> now - start < max_time opt \<Longrightarrow>
   optimize_loop opt rnd start clock st \<noteq> None"
proof (induction clock arbitrary: st)
  case Nil
  then show ?case by simp
next
  case (Cons now clock)
  show ?case
  proof (cases "now - start < max_time opt")
    case False
    then show ?thesis by simp
  next
    case True
    with Cons.prems have "\<exists>now \<in> set clock. \<not> now - start < max_time opt" by auto
    note ih = Cons.IH[OF this]
    show ?thesis
    proof (cases "opt_round opt rnd st")
      case (Inl e)
      with True show ?thesis by simp
    next
      case (Inr r)
      obtain continue st' where r: "r = (continue, st')" by (cases r)
      with True Inr ih[of st'] show ?thesis by simp
    qed
  qed
qed

text \<open>
  Claim C8: in every round of the optimizer's main loop the best-known cost does not
  increase, and changes only to the strictly smaller cost of an evaluated candidate; it
  does not increase over any number of rounds; and the cost returned by \<open>optimize\<close> is at
  most the cost of evaluating the initial order set.
\<close>

theorem best_cost_never_increases:
  "(opt_round opt rnd st = Inr (continue, st') \<longrightarrow>
      best_cost st' \<le> best_cost st \<and>
      (best_cost st' \<noteq> best_cost st \<longrightarrow>
         best_cost st' < best_cost st \<and>
         (\<exists>cand. evaluate opt cand = Inr (best_cost st', best_res st')))) \<and>
   (optimize_loop opt rnd start clock st = Some (Inr st') \<longrightarrow> best_cost st' \<le> best_cost st) \<and>
   (optimize opt rnd clock os = Some (Inr (cost, res)) \<longrightarrow>
      (\<exists>c0 r0. evaluate opt os = Inr (c0, r0) \<and> cost \<le> c0))"
proof -
  have r: "opt_round opt rnd st = Inr (continue, st') \<longrightarrow>
      best_cost st' \<le> best_cost st \<and>
      (best_cost st' \<noteq> best_cost st \<longrightarrow>
         best_cost st' < best_cost st \<and>
         (\<exists>cand. evaluate opt cand = Inr (best_cost st', best_res st')))"
    by (rule impI) (rule opt_round_best)
  have l: "optimize_loop opt rnd start clock st = Some (Inr st') \<longrightarrow> best_cost st' \<le> best_cost st"
    by (rule impI) (rule optimize_loop_best)
  have f: "optimize opt rnd clock os = Some (Inr (cost, res)) \<longrightarrow>
      (\<exists>c0 r0. evaluate opt os = Inr (c0, r0) \<and> cost \<le> c0)"
    by (rule impI) (rule optimize_best)
  show ?thesis by (rule conjI[OF r conjI[OF l f]])
qed

lemmas opt_defs = optimize_def opt_round_def evaluate_def new_simulator_def
  couple_exchange_def block_exchange_def block_relocate_def multi_relocate_def disturb_def
  sample2_def used_draws_def

theorem best_cost_never_increases_witness:
  "\<exists>continue st' stl cost res.
     opt_round tiny_opt (\<lambda>n. (0, 0)) (tiny_state 2000) = Inr (continue, st') \<and>
     best_cost st' = 1222 \<and> best_cost st' < best_cost (tiny_state 2000) \<and>
     optimize_loop tiny_opt (\<lambda>n. (0, 0)) 0 [1, 700] (tiny_state 2000) = Some (Inr stl) \<and>
     best_cost stl \<le> best_cost (tiny_state 2000) \<and>
     optimize tiny_opt (\<lambda>n. (0, 0)) [0, 1, 700] (orders tiny_sim) = Some (Inr (cost, res)) \<and>
     cost = 1222 \<and>
     (\<exists>c0 r0. evaluate tiny_opt (orders tiny_sim) = Inr (c0, r0) \<and> cost \<le> c0)"
proof -
  have "case opt_round tiny_opt (\<lambda>n. (0, 0)) (tiny_state 2000) of
          Inl e \<Rightarrow> False | Inr (cn, st) \<Rightarrow> best_cost st = 1222"
    by (simp add: opt_defs eval_defs tiny_opt_def tiny_sim_def tiny_state_def)
  then obtain continue st' where
    r: "opt_round tiny_opt (\<lambda>n. (0, 0)) (tiny_state 2000) = Inr (continue, st')"
    and rb: "best_cost st' = 1222"
    by (cases "opt_round tiny_opt (\<lambda>n. (0, 0)) (tiny_state 2000)") auto
  have "case optimize_loop tiny_opt (\<lambda>n. (0, 0)) 0 [1, 700] (tiny_state 2000) of
          Some (Inr st) \<Rightarrow> True | _ \<Rightarrow> False"
    by (simp add: opt_defs eval_defs tiny_opt_def tiny_sim_def tiny_state_def)
  then obtain stl where
    l: "optimize_loop tiny_opt (\<lambda>n. (0, 0)) 0 [1, 700] (tiny_state 2000) = Some (Inr stl)"
    by (auto split: option.splits sum.splits)
  have "case optimize tiny_opt (\<lambda>n. (0, 0)) [0, 1, 700] (orders tiny_sim) of
          Some (Inr (c, r)) \<Rightarrow> c = 1222 | _ \<Rightarrow> False"
    by (simp add: opt_defs eval_defs tiny_opt_def tiny_sim_def)
  then obtain cost res where
    f: "optimize tiny_opt (\<lambda>n. (0, 0)) [0, 1, 700] (orders tiny_sim) = Some (Inr (cost, res))"
    and fc: "cost = 1222"
    by (auto split: option.splits sum.splits)
  have b: "best_cost (tiny_state 2000) = 2000" by (simp add: tiny_state_def)
  from best_cost_never_increases[where opt = tiny_opt and rnd = "\<lambda>n. (0, 0)"
         and st = "tiny_state 2000" and continue = continue and st' = st'
         and start = 0 and clock = "[0, 1, 700]" and os = "orders tiny_sim"
         and cost = cost and res = res]
       best_cost_never_increases[where opt = tiny_opt and rnd = "\<lambda>n. (0, 0)"
         and st = "tiny_state 2000" and st' = stl
         and start = 0 and clock = "[1, 700]"]
       r rb l f fc b
  show ?thesis by (intro exI[of _ continue] exI[of _ st'] exI[of _ stl] exI[of _ cost] exI[of _ res]) simp
qed

section \<open>Deliveries happen after pickups\<close>







lemma statics_fields [simp]:
  "order_id (statics x) = order_id x" "pickup (statics x) = pickup x"
  "delivery (statics x) = delivery x" "qty (statics x) = qty x"
  "arrival (statics x) = arrival x" "due (statics x) = due x"
  by (simp_all add: statics_def)

lemma statics_flags [simp]:
  "statics (x\<lparr>picked := b\<rparr>) = statics x"
  "statics (x\<lparr>delivered := b, delivered_time := t\<rparr>) = statics x"
  by (simp_all add: statics_def)





lemma order_data_keys: "map fst (order_data s) = map fst (orders s)"
  by (simp add: order_data_def comp_def)



lemma set_order_data:
  assumes d: "distinct (map fst (orders s))" and e: "(k, x) \<in> set (orders s)"
    and v: "statics v = statics x"
  shows "order_data (set_order s k v) = order_data s"
proof -
  have "\<forall>e \<in> set (orders s).
          (\<lambda>kx. (fst kx, statics (snd kx))) ((\<lambda>(k', v'). if k' = k then (k', v) else (k', v')) e)
          = (\<lambda>kx. (fst kx, statics (snd kx))) e"
  proof
    fix e' assume m: "e' \<in> set (orders s)"
    obtain k' v' where e': "e' = (k', v')" by (cases e')
    show "(\<lambda>kx. (fst kx, statics (snd kx))) ((\<lambda>(k', v'). if k' = k then (k', v) else (k', v')) e')
          = (\<lambda>kx. (fst kx, statics (snd kx))) e'"
    proof (cases "k' = k")
      case True
      with m e' e have "(k, v') \<in> set (orders s)" "(k, x) \<in> set (orders s)" by simp_all
      with d have "v' = x" by (rule eq_key_imp_eq_value)
      with True e' v show ?thesis by simp
    next
      case False
      with e' show ?thesis by simp
    qed
  qed
  then have "map (\<lambda>kx. (fst kx, statics (snd kx)))
               (map (\<lambda>(k', v'). if k' = k then (k', v) else (k', v')) (orders s))
             = map (\<lambda>kx. (fst kx, statics (snd kx))) (orders s)"
    unfolding map_map by (intro map_cong refl) simp
  then show ?thesis unfolding order_data_def set_order_fields .
qed



lemma same_config_times:
  assumes "same_config s0 s"
  shows "travel_time s a b = travel_time s0 a b" "service_time s x = service_time s0 x"
proof -
  from assms have e: "travel_times s = travel_times s0" "distances s = distances s0"
    "dock_service_time s = dock_service_time s0" "unit_handling_time s = unit_handling_time s0"
    by (simp_all add: same_config_def)
  show "travel_time s a b = travel_time s0 a b" unfolding travel_time_def e ..
  show "service_time s x = service_time s0 x" unfolding service_time_def e ..
qed



















section \<open>The block operators and the iteration order of the order dictionary\<close>

lemma py_error_unique: "(a :: py_error) = b"
  by (cases a; cases b) simp

lemma feasible_scan_fails:
  "feasible_scan s veh os = Inl e \<longleftrightarrow>
     (\<exists>kx \<in> set os. \<not> picked (snd kx) \<and> \<not> delivered (snd kx) \<and>
        load veh + qty (snd kx) \<le> capacity veh \<and> lifo_blocked s veh (snd kx) = Inl e)"
proof (induction os)
  case Nil
  then show ?case by simp
next
  case (Cons a os)
  obtain k x where a: "a = (k, x)" by (cases a)
  show ?case unfolding a using Cons.IH
    by (auto simp: Let_def split: sum.splits bool.splits intro: py_error_unique)
qed

lemma lifo_blocked_cong:
  "map_of (orders t) = map_of (orders s) \<Longrightarrow> lifo_blocked t veh x = lifo_blocked s veh x"
  by (simp add: lifo_blocked_def)

lemma hd_sort_key_unique:
  assumes "set xs = set ys" and "xs \<noteq> []" and "inj_on f (set xs)"
  shows "hd (sort_key f xs) = hd (sort_key f ys)"
proof -
  from assms(1,2) have ys: "ys \<noteq> []" by auto
  have a: "hd (sort_key f xs) \<in> set xs" by (rule hd_sort_key_in[OF assms(2)])
  have b: "hd (sort_key f ys) \<in> set xs" using hd_sort_key_in[OF ys, of f] assms(1) by simp
  from hd_sort_key_le[OF b, of f] have 1: "f (hd (sort_key f xs)) \<le> f (hd (sort_key f ys))" .
  from a assms(1) have "hd (sort_key f xs) \<in> set ys" by simp
  from hd_sort_key_le[OF this, of f] have 2: "f (hd (sort_key f ys)) \<le> f (hd (sort_key f xs))" .
  from 1 2 have "f (hd (sort_key f xs)) = f (hd (sort_key f ys))" by simp
  with assms(3) a b show ?thesis by (simp add: inj_on_def)
qed

lemma reorderedD:
  assumes "reordered s t"
  shows "set (orders t) = set (orders s)" "distinct (map fst (orders s))"
    "distinct (map fst (orders t))" "distinct (map (\<lambda>kx. due (snd kx)) (orders s))"
    "vehicles t = vehicles s" "dock_occupancy t = dock_occupancy s" "same_config s t"
    "map_of (orders t) = map_of (orders s)" "plants t = plants s"
  using assms map_of_inject_set[of "orders t" "orders s"]
  by (simp_all add: reordered_def same_config_def)

lemma reordered_scan:
  assumes r: "reordered s t" and sc: "feasible_scan s veh (orders s) = Inr cs"
  obtains ct where "feasible_scan t veh (orders t) = Inr ct" "set ct = set cs"
proof -
  note d = reorderedD[OF r]
  have lb: "lifo_blocked t veh x = lifo_blocked s veh x" for x
    by (rule lifo_blocked_cong[OF d(8)])
  have "\<not> (\<exists>e. feasible_scan t veh (orders t) = Inl e)"
  proof
    assume "\<exists>e. feasible_scan t veh (orders t) = Inl e"
    then obtain e where "feasible_scan t veh (orders t) = Inl e" ..
    then have "feasible_scan s veh (orders s) = Inl e"
      unfolding feasible_scan_fails d(1) lb .
    with sc show False by simp
  qed
  then obtain ct where ct: "feasible_scan t veh (orders t) = Inr ct"
    by (cases "feasible_scan t veh (orders t)") auto
  have tt: "travel_time t a b = travel_time s a b" for a b
    by (rule same_config_times(1)[OF d(7)])
  have "c \<in> set ct \<longleftrightarrow> c \<in> set cs" for c
  proof -
    obtain k x arr tm where c: "c = ((k, x), arr, tm)" by (metis prod.exhaust)
    show ?thesis unfolding c
      using feasible_scan_sound[OF ct, of k x arr tm] feasible_scan_complete[OF ct, of k x]
        feasible_scan_sound[OF sc, of k x arr tm] feasible_scan_complete[OF sc, of k x]
      unfolding d(1) lb tt by blast
  qed
  then have "set ct = set cs" by blast
  with ct show thesis by (rule that)
qed

lemma reordered_cand_key_inj:
  assumes r: "reordered s t" and sc: "feasible_scan s veh (orders s) = Inr cs"
  shows "inj_on cand_key (set cs)"
proof (rule inj_onI)
  fix c c' assume m: "c \<in> set cs" "c' \<in> set cs" and e: "cand_key c = cand_key c'"
  obtain k x arr tm where c: "c = ((k, x), arr, tm)" by (metis prod.exhaust)
  obtain k' x' arr' tm' where c': "c' = ((k', x'), arr', tm')" by (metis prod.exhaust)
  note a = feasible_scan_sound[OF sc m(1)[unfolded c]]
  note b = feasible_scan_sound[OF sc m(2)[unfolded c']]
  from reorderedD(4)[OF r] have inj: "inj_on (\<lambda>kx. due (snd kx)) (set (orders s))"
    by (simp add: distinct_map)
  from e have "(\<lambda>kx. due (snd kx)) (k, x) = (\<lambda>kx. due (snd kx)) (k', x')"
    by (simp add: cand_key_def c c')
  moreover from a b have "(k, x) \<in> set (orders s)" "(k', x') \<in> set (orders s)" by simp_all
  ultimately have "(k, x) = (k', x')" using inj by (rule inj_onD[rotated])
  with a b show "c = c'" unfolding c c' by simp
qed

lemma due_map_order_data:
  "map (\<lambda>kx. due (snd kx)) (orders s) = map (\<lambda>kx. due (snd kx)) (order_data s)"
  by (simp add: order_data_def comp_def)

lemma reordered_vehicle:
  "reordered s t \<Longrightarrow> reordered (set_vehicle s vk v) (set_vehicle t vk v)"
  by (simp add: reordered_def same_config_def)

lemma reordered_dock:
  "reordered s t \<Longrightarrow> reordered (s\<lparr>dock_occupancy := d\<rparr>) (t\<lparr>dock_occupancy := d\<rparr>)"
  by (simp add: reordered_def same_config_def)

lemma reordered_set_order:
  assumes r: "reordered s t" and m: "(k, x) \<in> set (orders s)" and v: "statics v = statics x"
  shows "reordered (set_order s k v) (set_order t k v)"
proof -
  note d = reorderedD[OF r]
  from m d(1) have mt: "(k, x) \<in> set (orders t)" by simp
  note os = set_order_data[OF d(2) m v]
  note ot = set_order_data[OF d(3) mt v]
  have 1: "set (orders (set_order t k v)) = set (orders (set_order s k v))"
    by (simp add: d(1))
  have "map fst (orders (set_order s k v)) = map fst (orders s)"
    unfolding order_data_keys[symmetric] os ..
  with d(2) have 2: "distinct (map fst (orders (set_order s k v)))" by (simp only:)
  have "map fst (orders (set_order t k v)) = map fst (orders t)"
    unfolding order_data_keys[symmetric] ot ..
  with d(3) have 3: "distinct (map fst (orders (set_order t k v)))" by (simp only:)
  have "map (\<lambda>kx. due (snd kx)) (orders (set_order s k v)) = map (\<lambda>kx. due (snd kx)) (orders s)"
    unfolding due_map_order_data os ..
  with d(4) have 4: "distinct (map (\<lambda>kx. due (snd kx)) (orders (set_order s k v)))"
    by (simp only:)
  from 1 2 3 4 d(5,6,7) show ?thesis
    unfolding reordered_def by (simp add: same_config_def)
qed

lemma free_docks_reordered:
  assumes r: "reordered s t" and fd: "free_docks s pid tm = Inr (n, s1)"
  obtains t1 where "free_docks t pid tm = Inr (n, t1)" "reordered s1 t1"
proof -
  note d = reorderedD[OF r]
  from fd obtain occ p where q: "dock_occupancy s pid = Some occ" "plants s pid = Some p"
    "n = max 0 (docks p - int (length (filter (\<lambda>r. snd r > tm) occ)))"
    "s1 = s\<lparr>dock_occupancy := (dock_occupancy s)(pid \<mapsto> filter (\<lambda>r. snd r > tm) occ)\<rparr>"
    by (rule free_docksE)
  let ?t1 = "t\<lparr>dock_occupancy := (dock_occupancy s)(pid \<mapsto> filter (\<lambda>r. snd r > tm) occ)\<rparr>"
  have "free_docks t pid tm = Inr (n, ?t1)"
    using q d(6,9) by (simp add: free_docks_def Let_def)
  moreover have "reordered s1 ?t1" unfolding q(4) by (rule reordered_dock[OF r])
  ultimately show thesis by (rule that)
qed

lemma occupy_dock_reordered:
  assumes r: "reordered s t" and od: "occupy_dock s pid vid tm = Inr s1"
  obtains t1 where "occupy_dock t pid vid tm = Inr t1" "reordered s1 t1"
proof -
  note d = reorderedD[OF r]
  from od obtain occ where q: "dock_occupancy s pid = Some occ"
    "s1 = s\<lparr>dock_occupancy := (dock_occupancy s)(pid \<mapsto> occ @ [(vid, tm)])\<rparr>"
    by (rule occupy_dockE)
  let ?t1 = "t\<lparr>dock_occupancy := (dock_occupancy s)(pid \<mapsto> occ @ [(vid, tm)])\<rparr>"
  have "occupy_dock t pid vid tm = Inr ?t1"
    using q d(6) by (simp add: occupy_dock_def)
  moreover have "reordered s1 ?t1" unfolding q(2) by (rule reordered_dock[OF r])
  ultimately show thesis by (rule that)
qed

lemma reordered_service: "reordered s t \<Longrightarrow> service_time t x = service_time s x"
  by (rule same_config_times(2)) (simp add: reordered_def)

lemma reordered_travel: "reordered s t \<Longrightarrow> travel_time t a b = travel_time s a b"
  by (rule same_config_times(1)) (simp add: reordered_def)

lemma free_docks_orders:
  "free_docks s pid tm = Inr (n, s1) \<Longrightarrow> orders s1 = orders s"
  by (erule free_docksE) simp

lemma deliver_step_reordered:
  assumes r: "reordered s t" and m: "(ok, top_o) \<in> set (orders s)"
    and st: "deliver_step s vk veh ok top_o = Inr (a, s')"
  shows "\<exists>t'. deliver_step t vk veh ok top_o = Inr (a, t') \<and> reordered s' t'"
proof -
  from st obtain n s1 where fd: "free_docks s (location veh) (time veh) = Inr (n, s1)"
    by (auto simp: deliver_step_def Let_def split: sum.splits)
  from free_docks_reordered[OF r fd] obtain t1 where
    t1: "free_docks t (location veh) (time veh) = Inr (n, t1)" "reordered s1 t1" by blast
  note sv = reordered_service[OF r]
  show ?thesis
  proof (cases "n \<le> 0")
    case True
    with st fd have "a = WaitDelivery" "s' = set_vehicle s1 vk (veh\<lparr>time := time veh + 1\<rparr>)"
      by (simp_all add: deliver_step_def)
    moreover from True t1(1)
    have "deliver_step t vk veh ok top_o
            = Inr (WaitDelivery, set_vehicle t1 vk (veh\<lparr>time := time veh + 1\<rparr>))"
      by (simp add: deliver_step_def)
    ultimately show ?thesis using reordered_vehicle[OF t1(2)] by blast
  next
    case False
    let ?fin = "time veh + service_time s top_o"
    let ?veh' = "veh\<lparr>time := ?fin, load := load veh - qty top_o, stack := butlast (stack veh),
                     route := route veh @ [(location veh, ?fin)]\<rparr>"
    let ?top' = "top_o\<lparr>delivered := True, delivered_time := Some ?fin\<rparr>"
    let ?s2 = "set_order (set_vehicle s1 vk ?veh') ok ?top'"
    let ?t2 = "set_order (set_vehicle t1 vk ?veh') ok ?top'"
    from False st fd obtain s3 where
      od: "occupy_dock ?s2 (location veh) (vehicle_id veh) ?fin = Inr s3"
      and a: "a = Deliver ok ?fin" "s' = s3"
      by (auto simp: deliver_step_def Let_def split: sum.splits)
    from m free_docks_orders[OF fd] have "(ok, top_o) \<in> set (orders (set_vehicle s1 vk ?veh'))"
      by simp
    from reordered_set_order[OF reordered_vehicle[OF t1(2)] this, of ?top']
    have r2: "reordered ?s2 ?t2" by simp
    from occupy_dock_reordered[OF r2 od] obtain t3 where
      t3: "occupy_dock ?t2 (location veh) (vehicle_id veh) ?fin = Inr t3" "reordered s3 t3"
      by blast
    from False t1(1) t3(1) have "deliver_step t vk veh ok top_o = Inr (Deliver ok ?fin, t3)"
      by (simp add: deliver_step_def Let_def sv)
    with a t3(2) show ?thesis by blast
  qed
qed

lemma pickup_step_reordered:
  assumes r: "reordered s t" and m: "(ok, x) \<in> set (orders s)"
    and st: "pickup_step s vk veh ((ok, x), arr, tm) = Inr (a, s')"
  shows "\<exists>t'. pickup_step t vk veh ((ok, x), arr, tm) = Inr (a, t') \<and> reordered s' t'"
proof -
  from st obtain n s1 where fd: "free_docks s (pickup x) arr = Inr (n, s1)"
    by (auto simp: pickup_step_def Let_def split: sum.splits)
  from free_docks_reordered[OF r fd] obtain t1 where
    t1: "free_docks t (pickup x) arr = Inr (n, t1)" "reordered s1 t1" by blast
  note sv = reordered_service[OF r]
  show ?thesis
  proof (cases "n \<le> 0")
    case True
    let ?veh' = "veh\<lparr>location := pickup x, time := arr + 1\<rparr>"
    from True st fd have "a = WaitPickup ok" "s' = set_vehicle s1 vk ?veh'"
      by (simp_all add: pickup_step_def)
    moreover from True t1(1)
    have "pickup_step t vk veh ((ok, x), arr, tm) = Inr (WaitPickup ok, set_vehicle t1 vk ?veh')"
      by (simp add: pickup_step_def)
    ultimately show ?thesis using reordered_vehicle[OF t1(2)] by blast
  next
    case False
    let ?fin = "arr + service_time s x"
    let ?veh' = "veh\<lparr>location := pickup x, time := ?fin, load := load veh + qty x,
                     stack := stack veh @ [order_id x],
                     route := route veh @ [(pickup x, ?fin)]\<rparr>"
    let ?s2 = "set_order (set_vehicle s1 vk ?veh') ok (x\<lparr>picked := True\<rparr>)"
    let ?t2 = "set_order (set_vehicle t1 vk ?veh') ok (x\<lparr>picked := True\<rparr>)"
    from False st fd obtain s3 where
      od: "occupy_dock ?s2 (pickup x) (vehicle_id veh) ?fin = Inr s3"
      and a: "a = Pickup ok (order_id x) ?fin" "s' = s3"
      by (auto simp: pickup_step_def Let_def split: sum.splits)
    from m free_docks_orders[OF fd] have "(ok, x) \<in> set (orders (set_vehicle s1 vk ?veh'))"
      by simp
    from reordered_set_order[OF reordered_vehicle[OF t1(2)] this, of "x\<lparr>picked := True\<rparr>"]
    have r2: "reordered ?s2 ?t2" by simp
    from occupy_dock_reordered[OF r2 od] obtain t3 where
      t3: "occupy_dock ?t2 (pickup x) (vehicle_id veh) ?fin = Inr t3" "reordered s3 t3"
      by blast
    from False t1(1) t3(1)
    have "pickup_step t vk veh ((ok, x), arr, tm) = Inr (Pickup ok (order_id x) ?fin, t3)"
      by (simp add: pickup_step_def Let_def sv)
    with a t3(2) show ?thesis by blast
  qed
qed

lemma move_or_idle_reordered:
  assumes r: "reordered s t" and st: "move_or_idle s vk veh = Inr (a, s')"
  shows "\<exists>t'. move_or_idle t vk veh = Inr (a, t') \<and> reordered s' t'"
  using st reordered_vehicle[OF r]
  by (auto simp: move_or_idle_def Let_def reorderedD(8)[OF r] reordered_travel[OF r]
           split: if_splits option.splits)

lemma veh_step_select:
  assumes "time veh \<le> u"
    and "stack veh \<noteq> [] \<Longrightarrow>
           \<exists>top_o. map_of (orders s) (last (stack veh)) = Some top_o \<and> location veh \<noteq> delivery top_o"
  shows "veh_step u s vk veh = select_or_move s vk veh"
  using assms by (auto simp: veh_step_def)

lemma reordered_step:
  assumes r: "reordered s t" and st: "veh_step u s vk veh = Inr (a, s')"
  shows "\<exists>t'. veh_step u t vk veh = Inr (a, t') \<and> reordered s' t'"
  using st
proof (cases rule: veh_stepE)
  case skip
  then have "veh_step u t vk veh = Inr (a, t)" by (simp add: veh_step_def)
  with skip r show ?thesis by blast
next
  case (deliver top_o)
  note mo = reorderedD(8)[OF r]
  from deliver(1,2,3,4) have "veh_step u t vk veh = deliver_step t vk veh (last (stack veh)) top_o"
    by (simp add: veh_step_def mo)
  moreover from deliver(3) have "(last (stack veh), top_o) \<in> set (orders s)"
    by (rule map_of_SomeD)
  from deliver_step_reordered[OF r this deliver(5)]
  have "\<exists>t'. deliver_step t vk veh (last (stack veh)) top_o = Inr (a, t') \<and> reordered s' t'" .
  ultimately show ?thesis by simp
next
  case (pickup feasible)
  note mo = reorderedD(8)[OF r]
  have sel: "veh_step u t vk veh = select_or_move t vk veh"
    by (rule veh_step_select[OF pickup(1)]) (use pickup(5) mo in simp)
  from reordered_scan[OF r pickup(2)] obtain ct where
    ct: "feasible_scan t veh (orders t) = Inr ct" "set ct = set feasible" by blast
  from ct(2) pickup(3) have ne: "ct \<noteq> []" by auto
  have hd: "hd (sort_key cand_key feasible) = hd (sort_key cand_key ct)"
    by (rule hd_sort_key_unique[OF ct(2)[symmetric] pickup(3) reordered_cand_key_inj[OF r pickup(2)]])
  obtain k x arr tm where c: "hd (sort_key cand_key feasible) = ((k, x), arr, tm)"
    by (metis prod.exhaust)
  have "((k, x), arr, tm) \<in> set feasible" using hd_sort_key_in[OF pickup(3)] c by metis
  from feasible_scan_sound[OF pickup(2) this] have m: "(k, x) \<in> set (orders s)" by simp
  from pickup_step_reordered[OF r m pickup(4)[unfolded c]] obtain t' where
    t': "pickup_step t vk veh ((k, x), arr, tm) = Inr (a, t')" "reordered s' t'" by blast
  from sel ct(1) ne hd c t'(1) have "veh_step u t vk veh = Inr (a, t')"
    by (simp add: select_or_move_def)
  with t'(2) show ?thesis by blast
next
  case other
  note mo = reorderedD(8)[OF r]
  have sel: "veh_step u t vk veh = select_or_move t vk veh"
    by (rule veh_step_select[OF other(1)]) (use other(4) mo in simp)
  from reordered_scan[OF r other(2)] obtain ct where
    ct: "feasible_scan t veh (orders t) = Inr ct" "set ct = set []" by blast
  from ct(2) have e: "ct = []" by simp
  from move_or_idle_reordered[OF r other(3)] obtain t' where
    t': "move_or_idle t vk veh = Inr (a, t')" "reordered s' t'" by blast
  from sel ct(1) e t'(1) have "veh_step u t vk veh = Inr (a, t')"
    by (simp add: select_or_move_def)
  with t'(2) show ?thesis by blast
qed

lemma reordered_pass:
  "reordered s t \<Longrightarrow> pass_loop u vks pr tr s = Inr (pr', tr', s') \<Longrightarrow>
   \<exists>t'. pass_loop u vks pr tr t = Inr (pr', tr', t') \<and> reordered s' t'"
proof (induction vks arbitrary: pr tr s t)
  case Nil
  then show ?case by auto
next
  case (Cons vk vks)
  from Cons.prems(2) obtain veh a s1 where
    v: "map_of (vehicles s) vk = Some veh" and st: "veh_step u s vk veh = Inr (a, s1)" and
    rest: "pass_loop u vks (if a = Skipped then pr else True) (tr @ [(vk, a)]) s1 = Inr (pr', tr', s')"
    by (auto split: option.splits sum.splits)
  from reordered_step[OF Cons.prems(1) st] obtain t1 where
    t1: "veh_step u t vk veh = Inr (a, t1)" "reordered s1 t1" by blast
  from Cons.IH[OF t1(2) rest] obtain t' where
    t': "pass_loop u vks (if a = Skipped then pr else True) (tr @ [(vk, a)]) t1 = Inr (pr', tr', t')"
    "reordered s' t'" by blast
  from v reorderedD(5)[OF Cons.prems(1)] t1(1) t'(1)
  have "pass_loop u (vk # vks) pr tr t = Inr (pr', tr', t')" by simp
  with t'(2) show ?case by blast
qed

lemma reordered_undelivered:
  assumes "reordered s t"
  shows "undelivered u t = [] \<longleftrightarrow> undelivered u s = []"
  unfolding undelivered_def filter_empty_conv reorderedD(1)[OF assms] ..

lemma reordered_vehs: "reordered s t \<Longrightarrow> vehs t = vehs s"
  by (simp add: vehs_def reordered_def)

lemma reordered_dispatch:
  assumes "reordered s t" and "dispatch_loop u i tr s = Inr (tr', s')"
  shows "\<exists>t'. dispatch_loop u i tr t = Inr (tr', t') \<and> reordered s' t'"
  using assms
proof (induction u i tr s arbitrary: t rule: dispatch_loop.induct)
  case (1 u i tr s)
  note r = "1.prems"(1) and run = "1.prems"(2)
  note un = reordered_undelivered[OF r, of u]
  show ?case
  proof (cases "i < 20000 \<and> undelivered u s \<noteq> []")
    case False
    with run have "tr' = tr" "s' = s"
      by (auto simp: dispatch_loop.simps[of u i tr s] split: if_splits)
    moreover from False un have "dispatch_loop u i tr t = Inr (tr, t)"
      by (auto simp: dispatch_loop.simps[of u i tr t])
    ultimately show ?thesis using r by blast
  next
    case True
    with run obtain pr t1 s1 where
      p: "pass_loop u (vehs s) False [] s = Inr (pr, t1, s1)"
      by (auto simp: dispatch_loop.simps[of u i tr s] split: sum.splits)
    from reordered_pass[OF r p] obtain ta where
      ta: "pass_loop u (vehs s) False [] t = Inr (pr, t1, ta)" "reordered s1 ta" by blast
    note vt = reordered_vehs[OF r]
    show ?thesis
    proof (cases pr)
      case False
      with True p run have "tr' = tr @ t1" "s' = s1"
        by (auto simp: dispatch_loop.simps[of u i tr s])
      moreover from False True un ta(1) vt have "dispatch_loop u i tr t = Inr (tr @ t1, ta)"
        by (simp add: dispatch_loop.simps[of u i tr t])
      ultimately show ?thesis using ta(2) by blast
    next
      case pr: True
      with True p run have rr: "dispatch_loop u (i + 1) (tr @ t1) s1 = Inr (tr', s')"
        by (auto simp: dispatch_loop.simps[of u i tr s])
      have "\<exists>t'. dispatch_loop u (i + 1) (tr @ t1) ta = Inr (tr', t') \<and> reordered s' t'"
      proof (rule "1.IH"[OF _ _ p refl refl _ ta(2) rr])
        show "i < 20000" using True by simp
        show "undelivered u s \<noteq> []" using True by simp
        show "\<not> \<not> pr" using pr by simp
      qed
      moreover from pr True un ta(1) vt
      have "dispatch_loop u i tr t = dispatch_loop u (i + 1) (tr @ t1) ta"
        by (simp add: dispatch_loop.simps[of u i tr t])
      ultimately show ?thesis by simp
    qed
  qed
qed

lemma reordered_reset:
  assumes "reordered s t"
  shows "reordered (reset s) (reset t)"
proof -
  note d = reorderedD[OF assms]
  let ?f = "\<lambda>(k, x). (k, x\<lparr>picked := False, delivered := False, delivered_time := None\<rparr>)"
  have k: "map fst (map ?f os) = map fst os" for os :: "(int \<times> order) list"
    by (induction os) auto
  have du: "map (\<lambda>kx. due (snd kx)) (map ?f os) = map (\<lambda>kx. due (snd kx)) os"
    for os :: "(int \<times> order) list"
    by (induction os) auto
  have o: "orders (reset s) = map ?f (orders s)" "orders (reset t) = map ?f (orders t)"
    by (simp_all add: reset_def)
  have 1: "set (orders (reset t)) = set (orders (reset s))" unfolding o set_map d(1) ..
  have 2: "distinct (map fst (orders (reset s)))" unfolding o k by (rule d(2))
  have 3: "distinct (map fst (orders (reset t)))" unfolding o k by (rule d(3))
  have 4: "distinct (map (\<lambda>kx. due (snd kx)) (orders (reset s)))" unfolding o du by (rule d(4))
  have 5: "vehicles (reset t) = vehicles (reset s)" "dock_occupancy (reset t) = dock_occupancy (reset s)"
    "same_config (reset s) (reset t)"
    using d(5,7,9) by (simp_all add: reset_def same_config_def)
  from 1 2 3 4 5 show ?thesis unfolding reordered_def by simp
qed

lemma distinct_of_map: "distinct (map f xs) \<Longrightarrow> distinct xs"
  by (simp add: distinct_map)

lemma distance_cong:
  assumes "distances t = distances s"
  shows "distance t a b = distance s a b"
  unfolding distance_def assms ..

lemma path_length_cong: "distances t = distances s \<Longrightarrow> path_length t l = path_length s l"
  by (induction s l rule: path_length.induct) (simp_all add: distance_cong[of t])

lemma reordered_result:
  assumes "reordered s t"
  shows "same_outcome (compute_result s) (compute_result t)"
proof -
  note d = reorderedD[OF assms]
  from d(7) have cfg: "distances t = distances s" "lambda_cost t = lambda_cost s"
    by (simp_all add: same_config_def)
  have td: "total_distance_loop t (vehicles s) 0 = total_distance_loop s (vehicles s) 0"
    unfolding total_distance_loop_sum path_length_cong[OF cfg(1)] ..
  let ?g = "\<lambda>(oid, x). (oid, \<lparr>out_picked = picked x, out_delivered = delivered x,
                                 out_delivered_time = delivered_time x\<rparr>)"
  have k: "map fst (map ?g os) = map fst os" for os :: "(int \<times> order) list"
    by (induction os) auto
  have mo: "map_of (map ?g (orders t)) = map_of (map ?g (orders s))"
  proof (rule map_of_inject_set[THEN iffD2])
    show "distinct (map fst (map ?g (orders t)))" unfolding k by (rule d(3))
    show "distinct (map fst (map ?g (orders s)))" unfolding k by (rule d(2))
    show "set (map ?g (orders t)) = set (map ?g (orders s))" unfolding set_map d(1) ..
  qed
  show ?thesis
    unfolding same_outcome_def compute_result_def Let_def
    by (simp add: td cfg d(5) mo)
qed

lemma reordered_tracking:
  assumes r: "reordered s t" and run: "simulate_with_tracking u s = Inr (res, s')"
  shows "\<exists>res' t'. simulate_with_tracking u t = Inr (res', t') \<and> same_outcome res res'"
proof -
  from run obtain tr where d: "dispatch_loop u 0 [] (reset s) = Inr (tr, s')"
    and res: "res = compute_result s'"
    by (auto simp: simulate_with_tracking_def simulate_run_def split: sum.splits)
  from reordered_dispatch[OF reordered_reset[OF r] d] obtain t' where
    t': "dispatch_loop u 0 [] (reset t) = Inr (tr, t')" "reordered s' t'" by blast
  from t'(1) have "simulate_with_tracking u t = Inr (compute_result t', t')"
    by (simp add: simulate_with_tracking_def simulate_run_def)
  with reordered_result[OF t'(2)] res show ?thesis by blast
qed

lemma reordered_sym:
  assumes "reordered s t"
  shows "reordered t s"
proof -
  note d = reorderedD[OF assms]
  from d(4) have "inj_on (\<lambda>kx. due (snd kx)) (set (orders s))" by (simp add: distinct_map)
  moreover from d(3) have "distinct (orders t)" by (rule distinct_of_map)
  ultimately have "distinct (map (\<lambda>kx. due (snd kx)) (orders t))"
    by (simp add: distinct_map d(1))
  with d show ?thesis unfolding reordered_def by (simp add: same_config_def)
qed

lemma reordered_new_simulator:
  assumes "set os' = set os" "distinct (map fst os)" "distinct (map fst os')"
    "distinct (map (\<lambda>kx. due (snd kx)) os)"
  shows "reordered (new_simulator ps os vs ds tts dst uht lc)
                   (new_simulator ps os' vs ds tts dst uht lc)"
  using assms by (simp add: reordered_def new_simulator_def same_config_def)

lemma evaluate_reordered:
  assumes "set os' = set os" "distinct (map fst os)" "distinct (map fst os')"
    "distinct (map (\<lambda>kx. due (snd kx)) os)"
    and ev: "evaluate opt os = Inr (c, res)"
  shows "\<exists>c' res'. evaluate opt os' = Inr (c', res') \<and> same_outcome res res'"
proof -
  let ?sim = "\<lambda>os. new_simulator (plants (simulator_ref opt)) os (vehicles (simulator_ref opt))
                  (distances (simulator_ref opt)) (travel_times (simulator_ref opt))
                  (dock_service_time (simulator_ref opt)) (unit_handling_time (simulator_ref opt))
                  (lambda_cost (simulator_ref opt))"
  have r: "reordered (?sim os) (?sim os')" by (rule reordered_new_simulator[OF assms(1-4)])
  from ev obtain s' where run: "simulate_with_tracking (24 * 60) (?sim os) = Inr (res, s')"
    and c: "c = objective res"
    by (auto simp: evaluate_def Let_def split: sum.splits)
  from reordered_tracking[OF r run] obtain res' t' where
    t: "simulate_with_tracking (24 * 60) (?sim os') = Inr (res', t')" "same_outcome res res'"
    by blast
  from t(1) have "evaluate opt os' = Inr (objective res', res')"
    by (simp add: evaluate_def Let_def)
  with t(2) show ?thesis by blast
qed

lemma evaluate_reordered_error:
  assumes "set os' = set os" "distinct (map fst os)" "distinct (map fst os')"
    "distinct (map (\<lambda>kx. due (snd kx)) os)"
    and ev: "evaluate opt os = Inl e"
  shows "evaluate opt os' = Inl e"
proof (cases "evaluate opt os'")
  case (Inl e')
  then show ?thesis by (simp add: py_error_unique[of e' e])
next
  case (Inr cr)
  obtain c res where cr: "cr = (c, res)" by (cases cr)
  from assms(2) have "distinct os" by (rule distinct_of_map)
  from assms(3) have "distinct os'" by (rule distinct_of_map)
  from assms(4) have "inj_on (\<lambda>kx. due (snd kx)) (set os)" by (simp add: distinct_map)
  with \<open>distinct os'\<close> assms(1) have d': "distinct (map (\<lambda>kx. due (snd kx)) os')"
    by (simp add: distinct_map)
  from evaluate_reordered[OF assms(1)[symmetric] assms(3) assms(2) d' Inr[unfolded cr]] ev
  show ?thesis by simp
qed

lemma sample2_range:
  assumes "2 \<le> n"
  shows "fst (sample2 n xy) < n" "snd (sample2 n xy) < n" "fst (sample2 n xy) \<noteq> snd (sample2 n xy)"
proof -
  let ?a = "fst xy mod n"
  let ?k = "1 + snd xy mod (n - 1)"
  from assms have a: "?a < n" by simp
  from assms have "snd xy mod (n - 1) < n - 1" by simp
  then have k: "1 \<le> ?k" "?k < n" by linarith+
  have s: "sample2 n xy = (?a, (?a + ?k) mod n)"
    by (simp add: sample2_def Let_def add.assoc)
  show "fst (sample2 n xy) < n" using a s by simp
  show "snd (sample2 n xy) < n" using assms s by simp
  have "(?a + ?k) mod n \<noteq> ?a"
  proof (cases "?a + ?k < n")
    case True
    with k show ?thesis by simp
  next
    case False
    then have "n \<le> ?a + ?k" by simp
    then have "(?a + ?k) mod n = (?a + ?k - n) mod n" by (rule le_mod_geq)
    moreover from a k have "?a + ?k - n < n" by linarith
    ultimately have "(?a + ?k) mod n = ?a + ?k - n" by simp
    with False k show ?thesis by linarith
  qed
  with s show "fst (sample2 n xy) \<noteq> snd (sample2 n xy)" by simp
qed

lemma block_relocate_shape:
  assumes "2 \<le> length os"
  shows "block_relocate xy os =
           take (fst (sample2 (length os) xy)) os @ drop (Suc (fst (sample2 (length os) xy))) os
             @ [os ! fst (sample2 (length os) xy)]"
  using assms by (simp add: block_relocate_def case_prod_unfold Let_def)

lemma relocate_set:
  assumes "a < length os"
  shows "set (take a os @ drop (Suc a) os @ [os ! a]) = set os"
proof -
  from assms have "os = take a os @ os ! a # drop (Suc a) os" by (rule id_take_nth_drop)
  then have "set os = set (take a os @ os ! a # drop (Suc a) os)" by simp
  then show ?thesis by auto
qed

lemma relocate_distinct:
  assumes "a < length os" and "distinct (map f os)"
  shows "distinct (map f (take a os @ drop (Suc a) os @ [os ! a]))"
proof -
  from assms(1) have "os = take a os @ os ! a # drop (Suc a) os" by (rule id_take_nth_drop)
  then have "map f os = map f (take a os) @ f (os ! a) # map f (drop (Suc a) os)"
    by (metis list.simps(9) map_append)
  with assms(2) have "distinct (map f (take a os) @ f (os ! a) # map f (drop (Suc a) os))"
    by simp
  then show ?thesis by auto
qed

lemma block_relocate_set: "set (block_relocate xy os) = set os"
proof (cases "2 \<le> length os")
  case True
  show ?thesis unfolding block_relocate_shape[OF True]
    by (rule relocate_set[OF sample2_range(1)[OF True]])
next
  case False
  then show ?thesis by (simp add: block_relocate_def)
qed

lemma block_relocate_distinct:
  assumes "distinct (map f os)"
  shows "distinct (map f (block_relocate xy os))"
proof (cases "2 \<le> length os")
  case True
  show ?thesis unfolding block_relocate_shape[OF True]
    by (rule relocate_distinct[OF sample2_range(1)[OF True] assms])
next
  case False
  with assms show ?thesis by (simp add: block_relocate_def)
qed

lemma block_relocate_map_of:
  assumes "distinct (map fst os)"
  shows "map_of (block_relocate xy os) = map_of os"
  by (rule map_of_inject_set[THEN iffD2, OF block_relocate_distinct[OF assms] assms block_relocate_set])

lemma block_exchange_keys: "map fst (block_exchange xy os) = map fst os"
proof (cases "2 \<le> length os")
  case True
  note r = sample2_range[OF True, of xy]
  have u: "(map fst os)[i := fst (os ! i)] = map fst os" if "i < length os" for i
    using that by (metis list_update_id nth_map)
  show ?thesis
    using True
    by (simp add: block_exchange_def case_prod_unfold Let_def map_update u[OF r(1)] u[OF r(2)])
next
  case False
  then show ?thesis by (simp add: block_exchange_def)
qed

lemma block_exchange_values:
  assumes "2 \<le> length os"
  shows "snd (block_exchange xy os ! fst (sample2 (length os) xy))
           = snd (os ! snd (sample2 (length os) xy))"
    and "snd (block_exchange xy os ! snd (sample2 (length os) xy))
           = snd (os ! fst (sample2 (length os) xy))"
  using assms sample2_range[OF assms, of xy]
  by (simp_all add: block_exchange_def case_prod_unfold Let_def nth_list_update)

text \<open>
  Claim C1, as the code has it. Block-relocate moves the chosen entry to the end of the
  dictionary's iteration order and leaves the mapping from ids to orders unchanged; when
  no two orders have the same due time the evaluation of the relocated order set runs the
  same simulation as the evaluation of the unmodified one: it fails with the same error,
  or it returns the same per-order delivery outcomes, the same vehicle routes and the
  same average distance. Nothing is stated about the total lateness and the objective of
  the two evaluations: they are sums of the same per-order terms, added in the two
  iteration orders. Block-exchange keeps the key sequence and exchanges the two stored
  orders, so that each is then stored under the other's id. On an order set with fewer
  than two orders both operators return it unchanged.
\<close>

theorem block_operators_effect:
  "(length os < 2 \<longrightarrow> block_exchange xy os = os \<and> block_relocate xy os = os) \<and>
   map fst (block_exchange xy os) = map fst os \<and>
   (2 \<le> length os \<longrightarrow>
      fst (sample2 (length os) xy) < length os \<and> snd (sample2 (length os) xy) < length os \<and>
      fst (sample2 (length os) xy) \<noteq> snd (sample2 (length os) xy) \<and>
      snd (block_exchange xy os ! fst (sample2 (length os) xy))
        = snd (os ! snd (sample2 (length os) xy)) \<and>
      snd (block_exchange xy os ! snd (sample2 (length os) xy))
        = snd (os ! fst (sample2 (length os) xy)) \<and>
      block_relocate xy os =
        take (fst (sample2 (length os) xy)) os @ drop (Suc (fst (sample2 (length os) xy))) os
          @ [os ! fst (sample2 (length os) xy)]) \<and>
   (distinct (map fst os) \<longrightarrow> map_of (block_relocate xy os) = map_of os) \<and>
   (distinct (map fst os) \<and> distinct (map (\<lambda>kx. due (snd kx)) os) \<longrightarrow>
      (\<forall>e. evaluate opt os = Inl e \<longrightarrow> evaluate opt (block_relocate xy os) = Inl e) \<and>
      (\<forall>c res. evaluate opt os = Inr (c, res) \<longrightarrow>
         (\<exists>c' res'. evaluate opt (block_relocate xy os) = Inr (c', res') \<and>
            same_outcome res res')))"
proof -
  have 1: "length os < 2 \<longrightarrow> block_exchange xy os = os \<and> block_relocate xy os = os"
    by (simp add: block_exchange_def block_relocate_def)
  have 2: "map fst (block_exchange xy os) = map fst os" by (rule block_exchange_keys)
  have 3: "2 \<le> length os \<longrightarrow>
      fst (sample2 (length os) xy) < length os \<and> snd (sample2 (length os) xy) < length os \<and>
      fst (sample2 (length os) xy) \<noteq> snd (sample2 (length os) xy) \<and>
      snd (block_exchange xy os ! fst (sample2 (length os) xy))
        = snd (os ! snd (sample2 (length os) xy)) \<and>
      snd (block_exchange xy os ! snd (sample2 (length os) xy))
        = snd (os ! fst (sample2 (length os) xy)) \<and>
      block_relocate xy os =
        take (fst (sample2 (length os) xy)) os @ drop (Suc (fst (sample2 (length os) xy))) os
          @ [os ! fst (sample2 (length os) xy)]"
    using sample2_range[of "length os" xy] block_exchange_values[of os xy]
      block_relocate_shape[of os xy] by blast
  have 4: "distinct (map fst os) \<longrightarrow> map_of (block_relocate xy os) = map_of os"
    using block_relocate_map_of by blast
  have 5: "distinct (map fst os) \<and> distinct (map (\<lambda>kx. due (snd kx)) os) \<longrightarrow>
      (\<forall>e. evaluate opt os = Inl e \<longrightarrow> evaluate opt (block_relocate xy os) = Inl e) \<and>
      (\<forall>c res. evaluate opt os = Inr (c, res) \<longrightarrow>
         (\<exists>c' res'. evaluate opt (block_relocate xy os) = Inr (c', res') \<and>
            same_outcome res res'))"
  proof (intro impI conjI allI)
    fix e
    assume d: "distinct (map fst os) \<and> distinct (map (\<lambda>kx. due (snd kx)) os)"
      and ev: "evaluate opt os = Inl e"
    from d have d1: "distinct (map fst os)" and d2: "distinct (map (\<lambda>kx. due (snd kx)) os)"
      by simp_all
    show "evaluate opt (block_relocate xy os) = Inl e"
      by (rule evaluate_reordered_error[OF block_relocate_set d1 block_relocate_distinct[OF d1] d2 ev])
  next
    fix c res
    assume d: "distinct (map fst os) \<and> distinct (map (\<lambda>kx. due (snd kx)) os)"
      and ev: "evaluate opt os = Inr (c, res)"
    from d have d1: "distinct (map fst os)" and d2: "distinct (map (\<lambda>kx. due (snd kx)) os)"
      by simp_all
    show "\<exists>c' res'. evaluate opt (block_relocate xy os) = Inr (c', res') \<and>
            same_outcome res res'"
      by (rule evaluate_reordered[OF block_relocate_set d1 block_relocate_distinct[OF d1] d2 ev])
  qed
  show ?thesis by (rule conjI[OF 1 conjI[OF 2 conjI[OF 3 conjI[OF 4 5]]]])
qed

theorem block_operators_effect_witness:
  "distinct (map fst (orders swap_sim)) \<and>
   distinct (map (\<lambda>kx. due (snd kx)) (orders swap_sim)) \<and>
   2 \<le> length (orders swap_sim) \<and> length (orders tiny_sim) < 2 \<and>
   block_exchange (0, 0) (orders tiny_sim) = orders tiny_sim \<and>
   block_relocate (0, 0) (orders tiny_sim) = orders tiny_sim \<and>
   map_of (block_relocate (0, 0) (orders swap_sim)) = map_of (orders swap_sim) \<and>
   block_relocate (0, 0) (orders swap_sim)
     = [(2, mk_order 2 1 3 1 0 200), (1, mk_order 1 1 2 1 0 100)] \<and>
   (\<exists>res res'. evaluate (opt_of swap_sim) (orders swap_sim) = Inr (55, res) \<and>
      evaluate (opt_of swap_sim) (block_relocate (0, 0) (orders swap_sim)) = Inr (55, res') \<and>
      same_outcome res res')"
proof -
  have d: "distinct (map fst (orders swap_sim))"
    "distinct (map (\<lambda>kx. due (snd kx)) (orders swap_sim))"
    "2 \<le> length (orders swap_sim)" "length (orders tiny_sim) < 2"
    by (simp_all add: swap_sim_def tiny_sim_def mk_order_def)
  have sh: "block_relocate (0, 0) (orders swap_sim)
              = [(2, mk_order 2 1 3 1 0 200), (1, mk_order 1 1 2 1 0 100)]"
    by (simp add: block_relocate_def sample2_def swap_sim_def)
  have "case evaluate (opt_of swap_sim) (orders swap_sim) of Inl e \<Rightarrow> False
        | Inr (c, res) \<Rightarrow> c = 55"
    by (simp add: opt_defs eval_defs opt_of_def swap_sim_def)
  then obtain res where ev: "evaluate (opt_of swap_sim) (orders swap_sim) = Inr (55, res)"
    by (cases "evaluate (opt_of swap_sim) (orders swap_sim)") auto
  note sw = block_operators_effect[of "orders swap_sim" "(0, 0)" "opt_of swap_sim"]
  note ti = block_operators_effect[of "orders tiny_sim" "(0, 0)" "opt_of swap_sim"]
  from ti d(4) have t: "block_exchange (0, 0) (orders tiny_sim) = orders tiny_sim"
    "block_relocate (0, 0) (orders tiny_sim) = orders tiny_sim" by blast+
  from sw d(1) have m: "map_of (block_relocate (0, 0) (orders swap_sim)) = map_of (orders swap_sim)"
    by blast
  from sw d(1,2) ev obtain c' res' where
    r0: "evaluate (opt_of swap_sim) (block_relocate (0, 0) (orders swap_sim)) = Inr (c', res')"
    and so: "same_outcome res res'" by blast
  have "case evaluate (opt_of swap_sim) (block_relocate (0, 0) (orders swap_sim)) of
          Inl e \<Rightarrow> False | Inr (c, res) \<Rightarrow> c = 55"
    unfolding sh by (simp add: opt_defs eval_defs opt_of_def swap_sim_def)
  with r0 so have
    r: "evaluate (opt_of swap_sim) (block_relocate (0, 0) (orders swap_sim)) = Inr (55, res')"
       "same_outcome res res'" by simp_all
  from ev r have e: "\<exists>res res'. evaluate (opt_of swap_sim) (orders swap_sim) = Inr (55, res) \<and>
      evaluate (opt_of swap_sim) (block_relocate (0, 0) (orders swap_sim)) = Inr (55, res') \<and>
      same_outcome res res'" by blast
  show ?thesis
    by (rule conjI[OF d(1) conjI[OF d(2) conjI[OF d(3) conjI[OF d(4) conjI[OF t(1)
          conjI[OF t(2) conjI[OF m conjI[OF sh e]]]]]]]])
qed

text \<open>
  The claim as stated fails for both operators. Exchanging the two orders of \<open>swap_sim\<close>
  changes the objective from 55 to 45: the vehicle then delivers them in the other order.
  Relocating the first of the two equally urgent orders of \<open>tie_sim\<close> changes the objective
  from 480 to 1490: the vehicle serves the other order first.
\<close>

theorem block_operators_counterexample:
  "map_sum id fst (evaluate (opt_of swap_sim) (orders swap_sim)) = Inr 55 \<and>
   map_sum id fst (evaluate (opt_of swap_sim) (block_exchange (0, 0) (orders swap_sim))) = Inr 45 \<and>
   map_sum id fst (evaluate (opt_of tie_sim) (orders tie_sim)) = Inr 480 \<and>
   map_sum id fst (evaluate (opt_of tie_sim) (block_relocate (0, 0) (orders tie_sim))) = Inr 1490"
  by (simp add: opt_defs eval_defs opt_of_def swap_sim_def tie_sim_def)

section \<open>Isolation of evaluations\<close>

lemma snapshot_cong:
  assumes "\<forall>ka \<in> set refs. objs' (snd ka) = objs (snd ka)"
  shows "snapshot objs' refs = snapshot objs refs"
  using assms by (simp add: snapshot_def)

lemma clone_orders_facts:
  "clone_orders h refs = (cl, h') \<Longrightarrow>
   next_addr h \<le> next_addr h' \<and>
   (\<forall>a < next_addr h. order_objs h' a = order_objs h a) \<and>
   vehicle_objs h' = vehicle_objs h \<and> dock_objs h' = dock_objs h \<and>
   (\<forall>ka \<in> set cl. next_addr h \<le> snd ka \<and> snd ka < next_addr h') \<and>
   (allocated h refs \<longrightarrow> snapshot (order_objs h') cl = snapshot (order_objs h) refs)"
proof (induction refs arbitrary: h cl h')
  case Nil
  then show ?case by (simp add: snapshot_def)
next
  case (Cons r refs)
  obtain k a where r: "r = (k, a)" by (cases r)
  let ?h1 = "h\<lparr>order_objs := (order_objs h)(next_addr h := order_objs h a),
               next_addr := next_addr h + 1\<rparr>"
  from Cons.prems obtain cl2 where c2: "clone_orders ?h1 refs = (cl2, h')"
    and cl: "cl = (k, next_addr h) # cl2"
    unfolding r by (auto simp: Let_def split: prod.splits)
  note ih = Cons.IH[OF c2]
  from ih have 1: "next_addr h \<le> next_addr h'" by simp
  from ih have 2: "\<forall>b < next_addr h. order_objs h' b = order_objs h b" by simp
  from ih have 3: "vehicle_objs h' = vehicle_objs h" "dock_objs h' = dock_objs h" by simp_all
  from ih have lt: "next_addr h < next_addr h'" by simp
  from ih lt have 4: "\<forall>ka \<in> set cl. next_addr h \<le> snd ka \<and> snd ka < next_addr h'"
    unfolding cl by auto
  have 5: "snapshot (order_objs h') cl = snapshot (order_objs h) (r # refs)"
    if al: "allocated h (r # refs)"
  proof -
    from al have a: "a < next_addr h" and rest: "\<forall>ka \<in> set refs. snd ka < next_addr h"
      by (simp_all add: allocated_def r)
    from rest have al1: "allocated ?h1 refs" by (auto simp: allocated_def)
    from ih have "allocated ?h1 refs \<longrightarrow>
        snapshot (order_objs h') cl2 = snapshot (order_objs ?h1) refs" by blast
    with al1 have s: "snapshot (order_objs h') cl2 = snapshot (order_objs ?h1) refs" by (rule rev_mp)
    have "snapshot (order_objs ?h1) refs = snapshot (order_objs h) refs"
      by (rule snapshot_cong) (use rest in auto)
    moreover from ih have "order_objs h' (next_addr h) = order_objs ?h1 (next_addr h)" by simp
    ultimately show ?thesis using s a by (simp add: snapshot_def cl r)
  qed
  from 1 2 3 4 5 show ?case by blast
qed

lemma clone_vehicles_facts:
  "clone_vehicles h refs = (cl, h') \<Longrightarrow>
   next_addr h \<le> next_addr h' \<and>
   (\<forall>a < next_addr h. vehicle_objs h' a = vehicle_objs h a) \<and>
   order_objs h' = order_objs h \<and> dock_objs h' = dock_objs h \<and>
   (\<forall>ka \<in> set cl. next_addr h \<le> snd ka \<and> snd ka < next_addr h') \<and>
   (allocated h refs \<longrightarrow> snapshot (vehicle_objs h') cl = snapshot (vehicle_objs h) refs)"
proof (induction refs arbitrary: h cl h')
  case Nil
  then show ?case by (simp add: snapshot_def)
next
  case (Cons r refs)
  obtain k a where r: "r = (k, a)" by (cases r)
  let ?h1 = "h\<lparr>vehicle_objs := (vehicle_objs h)(next_addr h := vehicle_objs h a),
               next_addr := next_addr h + 1\<rparr>"
  from Cons.prems obtain cl2 where c2: "clone_vehicles ?h1 refs = (cl2, h')"
    and cl: "cl = (k, next_addr h) # cl2"
    unfolding r by (auto simp: Let_def split: prod.splits)
  note ih = Cons.IH[OF c2]
  from ih have 1: "next_addr h \<le> next_addr h'" by simp
  from ih have 2: "\<forall>b < next_addr h. vehicle_objs h' b = vehicle_objs h b" by simp
  from ih have 3: "order_objs h' = order_objs h" "dock_objs h' = dock_objs h" by simp_all
  from ih have lt: "next_addr h < next_addr h'" by simp
  from ih lt have 4: "\<forall>ka \<in> set cl. next_addr h \<le> snd ka \<and> snd ka < next_addr h'"
    unfolding cl by auto
  have 5: "snapshot (vehicle_objs h') cl = snapshot (vehicle_objs h) (r # refs)"
    if al: "allocated h (r # refs)"
  proof -
    from al have a: "a < next_addr h" and rest: "\<forall>ka \<in> set refs. snd ka < next_addr h"
      by (simp_all add: allocated_def r)
    from rest have al1: "allocated ?h1 refs" by (auto simp: allocated_def)
    from ih have "allocated ?h1 refs \<longrightarrow>
        snapshot (vehicle_objs h') cl2 = snapshot (vehicle_objs ?h1) refs" by blast
    with al1 have s: "snapshot (vehicle_objs h') cl2 = snapshot (vehicle_objs ?h1) refs" by (rule rev_mp)
    have "snapshot (vehicle_objs ?h1) refs = snapshot (vehicle_objs h) refs"
      by (rule snapshot_cong) (use rest in auto)
    moreover from ih have "vehicle_objs h' (next_addr h) = vehicle_objs ?h1 (next_addr h)" by simp
    ultimately show ?thesis using s a by (simp add: snapshot_def cl r)
  qed
  from 1 2 3 4 5 show ?case by blast
qed

lemma write_back_frame:
  "\<forall>ka \<in> set refs. n \<le> snd ka \<Longrightarrow> a < n \<Longrightarrow> write_back objs refs vals a = objs a"
proof (induction objs refs vals rule: write_back.induct)
  case (1 objs k b refs k' v vals)
  from "1.prems" have r: "\<forall>ka \<in> set refs. n \<le> snd ka" and b: "n \<le> b" by simp_all
  from "1.IH"[OF r "1.prems"(2)]
  have "write_back (objs(b := v)) refs vals a = (objs(b := v)) a" .
  moreover from b "1.prems"(2) have "(objs(b := v)) a = objs a" by simp
  ultimately show ?case by (simp only: write_back.simps)
qed simp_all

lemma allocated_mono: "allocated h refs \<Longrightarrow> next_addr h \<le> next_addr h' \<Longrightarrow> allocated h' refs"
  by (auto simp: allocated_def)

lemma evaluate_h_value:
  assumes ao: "allocated h os" and av: "allocated h (h_vehicles ref)"
  shows "map_sum id fst (evaluate_h h ref os)
           = evaluate (optimizer_of h ref) (snapshot (order_objs h) os)"
proof -
  obtain co h1 where c1: "clone_orders h os = (co, h1)" by (cases "clone_orders h os")
  obtain cv h2 where c2: "clone_vehicles h1 (h_vehicles ref) = (cv, h2)"
    by (cases "clone_vehicles h1 (h_vehicles ref)")
  note f1 = clone_orders_facts[OF c1] and f2 = clone_vehicles_facts[OF c2]
  let ?d = "next_addr h2"
  let ?sim = "ref\<lparr>h_orders := co, h_vehicles := cv, h_docks := ?d\<rparr>"
  let ?h3 = "h2\<lparr>dock_objs := (dock_objs h2)(?d := (\<lambda>pid. case h_plants ref pid of
                                                   None \<Rightarrow> None | Some p \<Rightarrow> Some [])),
               next_addr := ?d + 1\<rparr>"
  have c3: "new_sim_handle h2 ref co cv = (?sim, ?h3)" by (simp add: new_sim_handle_def Let_def)
  from f1 ao have so: "snapshot (order_objs h1) co = snapshot (order_objs h) os" by blast
  from f1 have "next_addr h \<le> next_addr h1" by blast
  from allocated_mono[OF av this] f2
  have "snapshot (vehicle_objs h2) cv = snapshot (vehicle_objs h1) (h_vehicles ref)" by blast
  moreover from f1 have "vehicle_objs h1 = vehicle_objs h" by blast
  ultimately have sv: "snapshot (vehicle_objs h2) cv = snapshot (vehicle_objs h) (h_vehicles ref)"
    by simp
  from f2 have oo: "order_objs h2 = order_objs h1" by blast
  have l: "load_sim ?h3 ?sim =
             new_simulator (h_plants ref) (snapshot (order_objs h) os)
               (snapshot (vehicle_objs h) (h_vehicles ref)) (h_distances ref)
               (h_travel_times ref) (h_dock_service_time ref) (h_unit_handling_time ref)
               (h_lambda_cost ref)"
    by (simp add: load_sim_def new_simulator_def so sv oo)
  have e: "evaluate_h h ref os =
             (case simulate_h (24 * 60) ?h3 ?sim of
                Inl e \<Rightarrow> Inl e
              | Inr (res, h4) \<Rightarrow> Inr ((objective res, res), h4))"
    by (simp add: evaluate_h_def c1 c2 c3)
  show ?thesis
    unfolding e simulate_h_def l evaluate_def optimizer_of_def Let_def
    by (simp add: load_sim_def split: sum.splits)
qed

lemma evaluate_h_unchanged:
  assumes "evaluate_h h ref os = Inr ((c, res), h')"
  shows "unchanged h h'"
proof -
  obtain co h1 where c1: "clone_orders h os = (co, h1)" by (cases "clone_orders h os")
  obtain cv h2 where c2: "clone_vehicles h1 (h_vehicles ref) = (cv, h2)"
    by (cases "clone_vehicles h1 (h_vehicles ref)")
  note f1 = clone_orders_facts[OF c1] and f2 = clone_vehicles_facts[OF c2]
  let ?d = "next_addr h2"
  let ?sim = "ref\<lparr>h_orders := co, h_vehicles := cv, h_docks := ?d\<rparr>"
  let ?h3 = "h2\<lparr>dock_objs := (dock_objs h2)(?d := (\<lambda>pid. case h_plants ref pid of
                                                   None \<Rightarrow> None | Some p \<Rightarrow> Some [])),
               next_addr := ?d + 1\<rparr>"
  have c3: "new_sim_handle h2 ref co cv = (?sim, ?h3)" by (simp add: new_sim_handle_def Let_def)
  from assms obtain s' where h': "h' = store_sim ?h3 ?sim s'"
    by (auto simp: evaluate_h_def c1 c2 c3 simulate_h_def split: sum.splits)
  from f1 have n1: "next_addr h \<le> next_addr h1" by blast
  from f2 have n2: "next_addr h1 \<le> next_addr h2" by blast
  have n: "next_addr h \<le> next_addr h'" using n1 n2 by (simp add: h' store_sim_def)
  have frame: "order_objs h' a = order_objs h a \<and> vehicle_objs h' a = vehicle_objs h a \<and>
               dock_objs h' a = dock_objs h a" if a: "a < next_addr h" for a
  proof -
    from f1 have co: "\<forall>ka \<in> set co. next_addr h \<le> snd ka" by blast
    from f2 n1 have cv: "\<forall>ka \<in> set cv. next_addr h \<le> snd ka" by force
    have "order_objs h' a = order_objs ?h3 a"
      unfolding h' store_sim_def using write_back_frame[OF co a] by simp
    also have "\<dots> = order_objs h1 a" using f2 by simp
    also have "\<dots> = order_objs h a" using f1 a by blast
    finally have 1: "order_objs h' a = order_objs h a" .
    have "vehicle_objs h' a = vehicle_objs ?h3 a"
      unfolding h' store_sim_def using write_back_frame[OF cv a] by simp
    also have "\<dots> = vehicle_objs h1 a" using f2 a n1 by simp
    also have "\<dots> = vehicle_objs h a" using f1 by simp
    finally have 2: "vehicle_objs h' a = vehicle_objs h a" .
    from a n1 n2 have "a \<noteq> ?d" by simp
    then have "dock_objs h' a = dock_objs h2 a" by (simp add: h' store_sim_def)
    also have "\<dots> = dock_objs h a" using f1 f2 by simp
    finally have 3: "dock_objs h' a = dock_objs h a" .
    from 1 2 3 show ?thesis by simp
  qed
  from n frame show ?thesis unfolding unchanged_def by blast
qed

lemma unchanged_snapshot:
  assumes "unchanged h h'" and "allocated h refs"
  shows "snapshot (order_objs h') refs = snapshot (order_objs h) refs"
    "snapshot (vehicle_objs h') refs = snapshot (vehicle_objs h) refs"
  using assms by (auto simp: unchanged_def allocated_def intro!: snapshot_cong)

lemma unchanged_load:
  assumes "unchanged h h'" and "allocated h (h_orders ref)" and "allocated h (h_vehicles ref)"
    and "h_docks ref < next_addr h"
  shows "load_sim h' ref = load_sim h ref"
  using unchanged_snapshot[OF assms(1,2)] unchanged_snapshot[OF assms(1,3)] assms(1,4)
  by (simp add: load_sim_def unchanged_def)

lemma simulate_same_config:
  assumes "simulate_with_tracking u s = Inr (r, s')"
  shows "same_config s s'"
proof -
  from assms obtain tr where "simulate_run u s = Inr (tr, s')"
    by (auto simp: simulate_with_tracking_def split: sum.splits)
  then have "s' \<in> reachable u s" by (rule simulate_run_reachable)
  then show ?thesis by (rule reachable_same_config)
qed

text \<open>
  Claim C10: an evaluation changes no object that existed before it (the input orders,
  the reference simulator's orders, vehicles and dock table are as they were; it writes
  only to the objects it has allocated itself); its value is the value of the
  state-passing \<open>evaluate\<close> on the snapshot of the input order set, so a second call on an
  equal snapshot, made in the store the first call leaves, returns the identical objective
  and result; and a simulation run leaves plants, tables and parameters as they are.
\<close>

theorem evaluate_isolated_and_deterministic:
  assumes "allocated h os" and "allocated h (h_orders ref)" and "allocated h (h_vehicles ref)"
    and "h_docks ref < next_addr h"
    and "evaluate_h h ref os = Inr ((c, res), h')"
  shows "unchanged h h' \<and>
         snapshot (order_objs h') os = snapshot (order_objs h) os \<and>
         load_sim h' ref = load_sim h ref \<and>
         evaluate (optimizer_of h ref) (snapshot (order_objs h) os) = Inr (c, res) \<and>
         (\<forall>os2. allocated h' os2 \<and> snapshot (order_objs h') os2 = snapshot (order_objs h) os \<longrightarrow>
            (\<exists>h''. evaluate_h h' ref os2 = Inr ((c, res), h''))) \<and>
         (\<forall>u s r s1. simulate_with_tracking u s = Inr (r, s1) \<longrightarrow> same_config s s1)"
proof -
  have u: "unchanged h h'" by (rule evaluate_h_unchanged[OF assms(5)])
  have so: "snapshot (order_objs h') os = snapshot (order_objs h) os"
    by (rule unchanged_snapshot(1)[OF u assms(1)])
  have l: "load_sim h' ref = load_sim h ref" by (rule unchanged_load[OF u assms(2,3,4)])
  from evaluate_h_value[OF assms(1,3)] assms(5)
  have v: "evaluate (optimizer_of h ref) (snapshot (order_objs h) os) = Inr (c, res)" by simp
  from u have n: "next_addr h \<le> next_addr h'" by (simp add: unchanged_def)
  have again: "\<exists>h''. evaluate_h h' ref os2 = Inr ((c, res), h'')"
    if "allocated h' os2 \<and> snapshot (order_objs h') os2 = snapshot (order_objs h) os" for os2
  proof -
    from that have a2: "allocated h' os2"
      and s2: "snapshot (order_objs h') os2 = snapshot (order_objs h) os" by simp_all
    have "map_sum id fst (evaluate_h h' ref os2)
            = evaluate (optimizer_of h' ref) (snapshot (order_objs h') os2)"
      by (rule evaluate_h_value[OF a2 allocated_mono[OF assms(3) n]])
    also have "\<dots> = Inr (c, res)" using v by (simp add: s2 optimizer_of_def l)
    finally show ?thesis by (cases "evaluate_h h' ref os2") auto
  qed
  have cfg: "\<forall>u s r s1. simulate_with_tracking u s = Inr (r, s1) \<longrightarrow> same_config s s1"
    using simulate_same_config by blast
  from again have again': "\<forall>os2. allocated h' os2 \<and>
      snapshot (order_objs h') os2 = snapshot (order_objs h) os \<longrightarrow>
      (\<exists>h''. evaluate_h h' ref os2 = Inr ((c, res), h''))" by blast
  show ?thesis by (rule conjI[OF u conjI[OF so conjI[OF l conjI[OF v conjI[OF again' cfg]]]]])
qed

lemmas heap_defs = evaluate_h_def new_sim_handle_def simulate_h_def load_sim_def store_sim_def
  snapshot_def allocated_def

theorem evaluate_isolated_and_deterministic_witness:
  "allocated tiny_heap [(1, 0)] \<and> allocated tiny_heap (h_orders tiny_ref) \<and>
   allocated tiny_heap (h_vehicles tiny_ref) \<and> h_docks tiny_ref < next_addr tiny_heap \<and>
   (\<exists>res h' h''. evaluate_h tiny_heap tiny_ref [(1, 0)] = Inr ((1222, res), h') \<and>
      unchanged tiny_heap h' \<and> order_objs h' 0 = mk_order 1 1 2 1 0 30 \<and>
      evaluate_h h' tiny_ref [(1, 0)] = Inr ((1222, res), h''))"
proof -
  have a: "allocated tiny_heap [(1, 0)]" "allocated tiny_heap (h_orders tiny_ref)"
    "allocated tiny_heap (h_vehicles tiny_ref)" "h_docks tiny_ref < next_addr tiny_heap"
    by (simp_all add: allocated_def tiny_heap_def tiny_ref_def)
  have "case evaluate_h tiny_heap tiny_ref [(1, 0)] of Inl e \<Rightarrow> False
        | Inr (cr, h') \<Rightarrow> fst cr = 1222"
    by (simp add: heap_defs eval_defs tiny_heap_def tiny_ref_def tiny_sim_def)
  then obtain res h' where ev: "evaluate_h tiny_heap tiny_ref [(1, 0)] = Inr ((1222, res), h')"
    by (cases "evaluate_h tiny_heap tiny_ref [(1, 0)]") auto
  note t = evaluate_isolated_and_deterministic[OF a ev]
  from t have u: "unchanged tiny_heap h'" by blast
  then have o: "order_objs h' 0 = mk_order 1 1 2 1 0 30"
    by (simp add: unchanged_def tiny_heap_def)
  from u have "allocated h' [(1, 0)]"
    using allocated_mono[OF a(1), of h'] by (simp add: unchanged_def)
  moreover from t have "snapshot (order_objs h') [(1, 0)] = snapshot (order_objs tiny_heap) [(1, 0)]"
    by blast
  ultimately obtain h'' where "evaluate_h h' tiny_ref [(1, 0)] = Inr ((1222, res), h'')"
    using t by blast
  with ev u o have "\<exists>res h' h''. evaluate_h tiny_heap tiny_ref [(1, 0)] = Inr ((1222, res), h') \<and>
      unchanged tiny_heap h' \<and> order_objs h' 0 = mk_order 1 1 2 1 0 30 \<and>
      evaluate_h h' tiny_ref [(1, 0)] = Inr ((1222, res), h'')" by blast
  with a show ?thesis by blast
qed

end
